theory Spec2Isabelle
  imports Main
begin

section \<open>Generalized ufuncs on top of vmap (notebooks/gufuncs.ipynb)\<close>

text \<open>
  The notebook defines \<^verbatim>\<open>vectorize(signature)\<close>: a decorator that parses a gufunc signature
  once and returns a wrapper which, per call, optionally reorders an axis, resolves the named
  core dimensions against the argument shapes, broadcasts the arguments and applies
  \<^verbatim>\<open>vmap\<close> once per broadcast dimension.  Every Python exception is a value of
  \<open>error\<close>; a function that can raise returns \<open>error + 'a\<close> with \<open>Inl\<close> the exception.
\<close>

subsection \<open>Errors\<close>

text \<open>
  The source raises \<^verbatim>\<open>ValueError\<close> and \<^verbatim>\<open>TypeError\<close> with different messages; each message
  is one constructor, named as the specification's taxonomy names it, and carries the values
  the message is formatted with.  \<open>BroadcastError\<close> is raised inside the array library; its
  message is the library's and is not modelled.  \<open>AxisError\<close>, \<open>IndexError\<close>, \<open>KeyError\<close>,
  \<open>UnpackError\<close> and \<open>NameError\<close> are the exceptions of the Python primitives the code calls; \<open>VmapError\<close> is
  the batching primitive's own failure and \<open>CoreError\<close> a failure of the opaque core function.
\<close>

datatype error =
    InvalidSignature string
  | ArityMismatch nat nat
  | InsufficientRank nat "string list"
  | InconsistentDimension string nat nat
  | BroadcastError
  | AxisNotSupported
  | AxisError int nat
  | IndexError
  | KeyError string
  | UnpackError
  | NameError
  | VmapError
  | CoreError

subsection \<open>Arrays\<close>

text \<open>
  An array is its shape and its element at every index tuple.  Only the elements at index
  tuples inside the shape are meaningful; \<open>arr_eq\<close> is equality of arrays as Python
  observes it.
\<close>

record 'a ndarray =
  shape :: "nat list"
  item :: "nat list \<Rightarrow> 'a"

definition ndim :: "'a ndarray \<Rightarrow> nat" where
  "ndim a = length (shape a)"

definition in_range :: "nat list \<Rightarrow> nat list \<Rightarrow> bool" where
  "in_range shp idx = (length idx = length shp \<and> list_all2 (\<lambda>i d. i < d) idx shp)"

definition arr_eq :: "'a ndarray \<Rightarrow> 'a ndarray \<Rightarrow> bool" where
  "arr_eq a b = (shape a = shape b \<and> (\<forall>idx. in_range (shape a) idx \<longrightarrow> item a idx = item b idx))"

text \<open>A Python value returned by a core function: one array, or a tuple of arrays.\<close>

datatype 'a pyval = Arr (un_arr: "'a ndarray") | Tup (un_tup: "'a ndarray list")

type_synonym 'a corefn = "'a ndarray list \<Rightarrow> error + 'a pyval"

text \<open>A wrapped function: the core function, the \<^verbatim>\<open>axis\<close> argument, the arguments.\<close>

type_synonym 'a wrapped = "'a corefn \<Rightarrow> int option \<Rightarrow> 'a ndarray list \<Rightarrow> error + 'a pyval"

type_synonym dim_sizes = "string \<rightharpoonup> nat"

subsection \<open>Dimension sizes: \<^verbatim>\<open>_update_dim_sizes\<close>\<close>

text \<open>
  \<^verbatim>\<open>
    for dim, size in zip(core_dims, core_shape):
        if dim in dim_sizes:
            if size != dim_sizes[dim]:
                raise ValueError('inconsistent size for core dimension %r: %r vs %r'
                                 % (dim, size, dim_sizes[dim]))
        else:
            dim_sizes[dim] = size
  \<close>
\<close>

fun update_loop :: "dim_sizes \<Rightarrow> (string \<times> nat) list \<Rightarrow> error + dim_sizes" where
  "update_loop dim_sizes [] = Inr dim_sizes"
| "update_loop dim_sizes ((dim, sz) # rest) =
     (case dim_sizes dim of
        Some v \<Rightarrow>
          (if sz \<noteq> v then Inl (InconsistentDimension dim sz v)
           else update_loop dim_sizes rest)
      | None \<Rightarrow> update_loop (dim_sizes(dim \<mapsto> sz)) rest)"

text \<open>
  \<^verbatim>\<open>
    if not core_dims:
        return
    num_core_dims = len(core_dims)
    if arg.ndim < num_core_dims:
        raise ValueError('%d-dimensional argument does not have enough '
                         'dimensions for all core dimensions %r' % (arg.ndim, core_dims))
    core_shape = arg.shape[-num_core_dims:]
  \<close>
  The dictionary is updated in place in the source; the model returns the updated one.
  \<^verbatim>\<open>arg.shape[-num_core_dims:]\<close> is read with \<open>1 \<le> num_core_dims \<le> arg.ndim\<close>, where it is
  the last \<open>num_core_dims\<close> entries.
\<close>

definition update_dim_sizes :: "dim_sizes \<Rightarrow> 'a ndarray \<Rightarrow> string list \<Rightarrow> error + dim_sizes" where
  "update_dim_sizes dim_sizes arg core_dims =
     (if core_dims = [] then Inr dim_sizes
      else
        let num_core_dims = length core_dims in
        if ndim arg < num_core_dims then Inl (InsufficientRank (ndim arg) core_dims)
        else
          let core_shape = drop (ndim arg - num_core_dims) (shape arg) in
          update_loop dim_sizes (zip core_dims core_shape))"

subsection \<open>Broadcasting of shapes\<close>

text \<open>
  Modelled from the spec: \<^verbatim>\<open>np.lib.stride_tricks._broadcast_shape\<close> is NumPy's, not the
  notebook's.  NumPy computes the result one dimension at a time over all the shapes at once:
  the result has the rank of the longest shape; at each position, counted from the right, every
  shape that has an entry there and whose entry is not 1 must agree with the entries seen so
  far.  \<open>bcast_dim shapes nd i\<close> is the entry at position \<open>i\<close> (from the left) of a result of
  rank \<open>nd\<close>, or \<open>None\<close> on a mismatch.
\<close>

definition bcast_step :: "nat \<Rightarrow> nat \<Rightarrow> nat list \<Rightarrow> nat option \<Rightarrow> nat option" where
  "bcast_step nd i s acc =
     (case acc of
        None \<Rightarrow> None
      | Some d \<Rightarrow>
          (if i + length s < nd then Some d
           else
             let tmp = s ! (i + length s - nd) in
             if tmp = 1 then Some d
             else if d = 1 then Some tmp
             else if d = tmp then Some d
             else None))"

definition bcast_dim :: "nat list list \<Rightarrow> nat \<Rightarrow> nat \<Rightarrow> nat option" where
  "bcast_dim shapes nd i = foldl (\<lambda>acc s. bcast_step nd i s acc) (Some 1) shapes"

definition max_rank :: "nat list list \<Rightarrow> nat" where
  "max_rank shapes = foldl max 0 (map length shapes)"

definition np_broadcast_shape :: "nat list list \<Rightarrow> error + nat list" where
  "np_broadcast_shape shapes =
     (let nd = max_rank shapes;
          dims = map (bcast_dim shapes nd) [0..<nd]
      in if None \<in> set dims then Inl BroadcastError else Inr (map the dims))"

text \<open>
  The specification's words for the same result (section 3, Broadcast Shape): shapes are
  aligned on the right and combined pairwise; a pair of entries must be equal, or one of them
  1 or absent; the result takes the other entry.  \<open>bpair_rev\<close> works on reversed shapes, so
  that aligned entries have the same index.
\<close>

fun bpair_rev :: "nat list \<Rightarrow> nat list \<Rightarrow> nat list option" where
  "bpair_rev [] ys = Some ys"
| "bpair_rev (x # xs) [] = Some (x # xs)"
| "bpair_rev (x # xs) (y # ys) =
     (if x = y \<or> y = 1 then map_option ((#) x) (bpair_rev xs ys)
      else if x = 1 then map_option ((#) y) (bpair_rev xs ys)
      else None)"

definition broadcast_pair :: "nat list \<Rightarrow> nat list \<Rightarrow> nat list option" where
  "broadcast_pair a b = map_option rev (bpair_rev (rev a) (rev b))"

fun broadcast_all :: "nat list option \<Rightarrow> nat list list \<Rightarrow> nat list option" where
  "broadcast_all acc [] = acc"
| "broadcast_all acc (s # ss) =
     broadcast_all (case acc of None \<Rightarrow> None | Some b \<Rightarrow> broadcast_pair b s) ss"

definition spec_broadcast :: "nat list list \<Rightarrow> nat list option" where
  "spec_broadcast shapes = broadcast_all (Some []) shapes"

subsection \<open>\<^verbatim>\<open>_parse_input_dimensions\<close>, \<^verbatim>\<open>_calculate_shapes\<close>\<close>

text \<open>
  \<^verbatim>\<open>
    broadcast_args = []
    dim_sizes = {}
    for arg, core_dims in zip(args, input_core_dims):
        _update_dim_sizes(dim_sizes, arg, core_dims)
        ndim = arg.ndim - len(core_dims)
        dummy_array = np.lib.stride_tricks.as_strided(0, arg.shape[:ndim])
        broadcast_args.append(dummy_array)
    broadcast_shape = np.lib.stride_tricks._broadcast_shape(*broadcast_args)
    return broadcast_shape, dim_sizes
  \<close>
  Only the shape of a dummy array is read, so the list holds the shapes.  The difference
  \<^verbatim>\<open>arg.ndim - len(core_dims)\<close> is taken after \<^verbatim>\<open>_update_dim_sizes\<close> has returned, where it is not
  negative (lemma \<open>update_dim_sizes_rank\<close>).
\<close>

fun pid_loop ::
  "dim_sizes \<Rightarrow> nat list list \<Rightarrow> ('a ndarray \<times> string list) list \<Rightarrow> error + (nat list list \<times> dim_sizes)" where
  "pid_loop dim_sizes broadcast_args [] = Inr (broadcast_args, dim_sizes)"
| "pid_loop dim_sizes broadcast_args ((arg, core_dims) # rest) =
     (case update_dim_sizes dim_sizes arg core_dims of
        Inl e \<Rightarrow> Inl e
      | Inr dim_sizes' \<Rightarrow>
          let nd = ndim arg - length core_dims;
              dummy_array = take nd (shape arg)
          in pid_loop dim_sizes' (broadcast_args @ [dummy_array]) rest)"

definition parse_input_dimensions ::
  "'a ndarray list \<Rightarrow> string list list \<Rightarrow> error + (nat list \<times> dim_sizes)" where
  "parse_input_dimensions args input_core_dims =
     (case pid_loop Map.empty [] (zip args input_core_dims) of
        Inl e \<Rightarrow> Inl e
      | Inr (broadcast_args, dim_sizes) \<Rightarrow>
          (case np_broadcast_shape broadcast_args of
             Inl e \<Rightarrow> Inl e
           | Inr bs \<Rightarrow> Inr (bs, dim_sizes)))"

text \<open>
  \<^verbatim>\<open>
    return [broadcast_shape + tuple(dim_sizes[dim] for dim in core_dims)
            for core_dims in list_of_core_dims]
  \<close>
  \<^verbatim>\<open>dim_sizes[dim]\<close> raises \<^verbatim>\<open>KeyError\<close> on a missing name.
\<close>

fun lookup_dims :: "dim_sizes \<Rightarrow> string list \<Rightarrow> error + nat list" where
  "lookup_dims dim_sizes [] = Inr []"
| "lookup_dims dim_sizes (dim # rest) =
     (case dim_sizes dim of
        None \<Rightarrow> Inl (KeyError dim)
      | Some v \<Rightarrow> (case lookup_dims dim_sizes rest of Inl e \<Rightarrow> Inl e | Inr vs \<Rightarrow> Inr (v # vs)))"

fun calculate_shapes :: "nat list \<Rightarrow> dim_sizes \<Rightarrow> string list list \<Rightarrow> error + nat list list" where
  "calculate_shapes broadcast_shape dim_sizes [] = Inr []"
| "calculate_shapes broadcast_shape dim_sizes (core_dims # rest) =
     (case lookup_dims dim_sizes core_dims of
        Inl e \<Rightarrow> Inl e
      | Inr vs \<Rightarrow>
          (case calculate_shapes broadcast_shape dim_sizes rest of
             Inl e \<Rightarrow> Inl e
           | Inr shapes \<Rightarrow> Inr ((broadcast_shape @ vs) # shapes)))"

subsection \<open>Array primitives of the collaborators\<close>

text \<open>
  Modelled from the spec: \<^verbatim>\<open>jnp.broadcast_to\<close> is the array library's (section 6, array
  type: broadcasting to an explicit target shape).  The array's shape is aligned with the target
  on the right; each entry must equal the target's or be 1; a missing leading entry and an
  entry 1 repeat the element at index 0.
\<close>

definition broadcast_to :: "'a ndarray \<Rightarrow> nat list \<Rightarrow> error + 'a ndarray" where
  "broadcast_to a target =
     (let k = length target - length (shape a) in
      if length (shape a) \<le> length target
         \<and> list_all2 (\<lambda>d t. d = t \<or> d = 1) (shape a) (drop k target)
      then Inr \<lparr>shape = target,
                item = (\<lambda>idx. item a (map2 (\<lambda>d i. if d = 1 then 0 else i) (shape a) (drop k idx)))\<rparr>
      else Inl BroadcastError)"

text \<open>
  Modelled from the spec: \<^verbatim>\<open>jnp.moveaxis\<close> is the array library's (section 6: moving a
  dimension from one index to another).  An axis counts from the end when negative and must
  lie in \<open>[-ndim, ndim)\<close>; the other axes keep their order.  \<open>move xs i j\<close> takes the entry
  at \<open>i\<close> out of \<open>xs\<close> and puts it back at \<open>j\<close>.
\<close>

definition normalize_axis :: "int \<Rightarrow> nat \<Rightarrow> error + nat" where
  "normalize_axis ax n =
     (if - int n \<le> ax \<and> ax < int n then Inr (nat (if ax < 0 then ax + int n else ax))
      else Inl (AxisError ax n))"

definition move :: "'b list \<Rightarrow> nat \<Rightarrow> nat \<Rightarrow> 'b list" where
  "move xs i j = (let r = take i xs @ drop (Suc i) xs in take j r @ [xs ! i] @ drop j r)"

definition moveaxis :: "'a ndarray \<Rightarrow> int \<Rightarrow> int \<Rightarrow> error + 'a ndarray" where
  "moveaxis a source destination =
     (case normalize_axis source (ndim a) of
        Inl e \<Rightarrow> Inl e
      | Inr src \<Rightarrow>
          (case normalize_axis destination (ndim a) of
             Inl e \<Rightarrow> Inl e
           | Inr dst \<Rightarrow>
               Inr \<lparr>shape = move (shape a) src dst, item = (\<lambda>idx. item a (move idx dst src))\<rparr>))"

text \<open>
  Modelled from the spec: \<^verbatim>\<open>vmap\<close> is the batching primitive (section 6): \<open>vmap f\<close> takes
  arguments with one more leading axis than \<open>f\<close>'s, all of one size \<open>n\<close>, applies \<open>f\<close> at each
  index along that axis to the slices of all arguments, and returns the results with that axis
  put back in front.  The shape of a result is the shape \<open>f\<close> returns for the slice at index 0,
  which is also how the shape is found when \<open>n = 0\<close>; the results at all indices must have one
  form (one array, or a tuple of one length) and one shape each.
\<close>

definition slice0 :: "nat \<Rightarrow> 'a ndarray \<Rightarrow> 'a ndarray" where
  "slice0 i a = \<lparr>shape = tl (shape a), item = (\<lambda>idx. item a (i # idx))\<rparr>"

definition stack0 :: "nat \<Rightarrow> (nat \<Rightarrow> 'a ndarray) \<Rightarrow> 'a ndarray" where
  "stack0 n f = \<lparr>shape = n # shape (f 0), item = (\<lambda>idx. item (f (hd idx)) (tl idx))\<rparr>"

definition form :: "'a pyval \<Rightarrow> bool \<times> nat list list" where
  "form v = (case v of Arr a \<Rightarrow> (False, [shape a]) | Tup as \<Rightarrow> (True, map shape as))"

fun first_error :: "('e + 'b) list \<Rightarrow> 'e option" where
  "first_error [] = None"
| "first_error (Inl e # rs) = Some e"
| "first_error (Inr v # rs) = first_error rs"

text \<open>The size of the mapped axis: every argument has a leading axis, all of one size.\<close>

definition vmap_axis_size :: "'a ndarray list \<Rightarrow> error + nat" where
  "vmap_axis_size args =
     (if args = [] \<or> (\<exists>a\<in>set args. shape a = []) then Inl VmapError
      else
        let n = hd (shape (hd args)) in
        if \<exists>a\<in>set args. hd (shape a) \<noteq> n then Inl VmapError else Inr n)"

text \<open>The results at all indices, stacked along a new leading axis of size \<open>n\<close>.\<close>

definition vmap_stack :: "nat \<Rightarrow> (nat \<Rightarrow> 'a pyval) \<Rightarrow> 'a pyval" where
  "vmap_stack n vs =
     (case vs 0 of
        Arr a \<Rightarrow> Arr (stack0 n (\<lambda>i. un_arr (vs i)))
      | Tup as \<Rightarrow> Tup (map (\<lambda>k. stack0 n (\<lambda>i. un_tup (vs i) ! k)) [0..<length as]))"

definition vmap :: "'a corefn \<Rightarrow> 'a corefn" where
  "vmap f args =
     (case vmap_axis_size args of
        Inl e \<Rightarrow> Inl e
      | Inr n \<Rightarrow>
          let run = (\<lambda>i. f (map (slice0 i) args));
              outs = map run [0..<max n 1]
          in (case first_error outs of
                Some e \<Rightarrow> Inl e
              | None \<Rightarrow>
                  if \<exists>r\<in>set outs. form (projr r) \<noteq> form (projr (run 0)) then Inl VmapError
                  else Inr (vmap_stack n (\<lambda>i. projr (run i)))))"

subsection \<open>\<^verbatim>\<open>broadcast_with_core_dims\<close>\<close>

text \<open>
  \<^verbatim>\<open>
    if len(args) != len(input_core_dims):
      raise TypeError('wrong number of positional arguments: expected %r, got %r'
                      % (len(input_core_dims), len(args)))
    broadcast_shape, dim_sizes = _parse_input_dimensions(args, input_core_dims)
    input_shapes = _calculate_shapes(broadcast_shape, dim_sizes, input_core_dims)
    args = [jnp.broadcast_to(arg, shape) for arg, shape in zip(args, input_shapes)]
    return args
  \<close>
\<close>

fun broadcast_each :: "('a ndarray \<times> nat list) list \<Rightarrow> error + 'a ndarray list" where
  "broadcast_each [] = Inr []"
| "broadcast_each ((arg, shp) # rest) =
     (case broadcast_to arg shp of
        Inl e \<Rightarrow> Inl e
      | Inr a \<Rightarrow> (case broadcast_each rest of Inl e \<Rightarrow> Inl e | Inr as \<Rightarrow> Inr (a # as)))"

definition broadcast_with_core_dims ::
  "'a ndarray list \<Rightarrow> string list list \<Rightarrow> string list list \<Rightarrow> error + 'a ndarray list" where
  "broadcast_with_core_dims args input_core_dims output_core_dims =
     (if length args \<noteq> length input_core_dims
      then Inl (ArityMismatch (length input_core_dims) (length args))
      else
        (case parse_input_dimensions args input_core_dims of
           Inl e \<Rightarrow> Inl e
         | Inr (bshape, dim_sizes) \<Rightarrow>
             (case calculate_shapes bshape dim_sizes input_core_dims of
                Inl e \<Rightarrow> Inl e
              | Inr input_shapes \<Rightarrow> broadcast_each (zip args input_shapes))))"

subsection \<open>The \<^verbatim>\<open>axis\<close> argument\<close>

text \<open>
  \<^verbatim>\<open>
    def verify_axis_is_supported(input_core_dims, output_core_dims):
      all_core_dims = set()
      for input_or_output_core_dims in [input_core_dims, output_core_dims]:
        for core_dims in input_or_output_core_dims:
          all_core_dims.update(core_dims)
      if len(core_dims) > 1:
        raise ValueError('only one gufuncs with one core dim support axis')
  \<close>
  The loops' state is the set \<^verbatim>\<open>all_core_dims\<close> and the loop variable \<^verbatim>\<open>core_dims\<close>, which
  is unbound until the first iteration and holds the last group visited afterwards.  The test
  after the loops reads \<^verbatim>\<open>core_dims\<close>.
\<close>

definition verify_step :: "string set \<times> string list option \<Rightarrow> string list \<Rightarrow> string set \<times> string list option" where
  "verify_step st core_dims = (fst st \<union> set core_dims, Some core_dims)"

definition verify_loops :: "string list list \<Rightarrow> string list list \<Rightarrow> string set \<times> string list option" where
  "verify_loops input_core_dims output_core_dims =
     foldl (\<lambda>st input_or_output_core_dims. foldl verify_step st input_or_output_core_dims)
       ({}, None) [input_core_dims, output_core_dims]"

definition all_core_dims :: "string list list \<Rightarrow> string list list \<Rightarrow> string set" where
  "all_core_dims input_core_dims output_core_dims = fst (verify_loops input_core_dims output_core_dims)"

definition verify_axis_is_supported :: "string list list \<Rightarrow> string list list \<Rightarrow> error + unit" where
  "verify_axis_is_supported input_core_dims output_core_dims =
     (case snd (verify_loops input_core_dims output_core_dims) of
        None \<Rightarrow> Inl NameError
      | Some core_dims \<Rightarrow> if length core_dims > 1 then Inl AxisNotSupported else Inr ())"

text \<open>
  \<^verbatim>\<open>
    def reorder_inputs(args, axis, input_core_dims):
      return tuple(jnp.moveaxis(arg, axis, -1) if core_dims else arg
                   for arg, core_dims in zip(args, input_core_dims))
  \<close>
  \<^verbatim>\<open>zip\<close> stops at the shorter of its two arguments.
\<close>

fun reorder_inputs :: "'a ndarray list \<Rightarrow> int \<Rightarrow> string list list \<Rightarrow> error + 'a ndarray list" where
  "reorder_inputs (arg # args) axis (core_dims # rest) =
     (case (if core_dims \<noteq> [] then moveaxis arg axis (- 1) else Inr arg) of
        Inl e \<Rightarrow> Inl e
      | Inr a \<Rightarrow> (case reorder_inputs args axis rest of Inl e \<Rightarrow> Inl e | Inr as \<Rightarrow> Inr (a # as)))"
| "reorder_inputs args axis input_core_dims = Inr []"

text \<open>
  \<^verbatim>\<open>
    def reorder_outputs(result, axis, output_core_dims):
      if not isinstance(result, tuple):
        result = (result,)
      result = tuple(jnp.moveaxis(res, -1, axis) if core_dims else res
                     for res, core_dims in zip(result, output_core_dims))
      if len(result) == 1:
        (result,) = result
      return result
  \<close>
\<close>

fun reorder_each :: "'a ndarray list \<Rightarrow> int \<Rightarrow> string list list \<Rightarrow> error + 'a ndarray list" where
  "reorder_each (res # result) axis (core_dims # rest) =
     (case (if core_dims \<noteq> [] then moveaxis res (- 1) axis else Inr res) of
        Inl e \<Rightarrow> Inl e
      | Inr a \<Rightarrow> (case reorder_each result axis rest of Inl e \<Rightarrow> Inl e | Inr as \<Rightarrow> Inr (a # as)))"
| "reorder_each result axis output_core_dims = Inr []"

definition reorder_outputs :: "'a pyval \<Rightarrow> int \<Rightarrow> string list list \<Rightarrow> error + 'a pyval" where
  "reorder_outputs result axis output_core_dims =
     (let result1 = (case result of Arr a \<Rightarrow> [a] | Tup as \<Rightarrow> as) in
      case reorder_each result1 axis output_core_dims of
        Inl e \<Rightarrow> Inl e
      | Inr result2 \<Rightarrow> Inr (if length result2 = 1 then Arr (hd result2) else Tup result2))"

subsection \<open>Core implementation: the wrapper\<close>

text \<open>
  \<^verbatim>\<open>
    def wrapper(*args, axis=None):
      if axis is not None:
        verify_axis_is_supported(input_core_dims, output_core_dims)
        args = reorder_inputs(args, axis, input_core_dims)
      broadcast_args = broadcast_with_core_dims(args, input_core_dims, output_core_dims)
      num_batch_dims = len(broadcast_args[0].shape) - len(input_core_dims[0])
      vectorized_func = func
      for _ in range(num_batch_dims):
        vectorized_func = vmap(vectorized_func)
      result = vectorized_func(*broadcast_args)
      if axis is not None:
        result = reorder_outputs(result, axis, output_core_dims)
      return result
  \<close>
  \<^verbatim>\<open>broadcast_args[0]\<close> and \<^verbatim>\<open>input_core_dims[0]\<close> raise \<^verbatim>\<open>IndexError\<close> on an empty list;
  \<^verbatim>\<open>range\<close> of a negative number is empty.
\<close>

definition num_batch_dims :: "'a ndarray list \<Rightarrow> string list list \<Rightarrow> error + int" where
  "num_batch_dims broadcast_args input_core_dims =
     (case broadcast_args of
        [] \<Rightarrow> Inl IndexError
      | b0 # _ \<Rightarrow>
          (case input_core_dims of
             [] \<Rightarrow> Inl IndexError
           | c0 # _ \<Rightarrow> Inr (int (length (shape b0)) - int (length c0))))"

definition wrapper ::
  "string list list \<Rightarrow> string list list \<Rightarrow> 'a corefn \<Rightarrow> int option \<Rightarrow> 'a ndarray list \<Rightarrow> error + 'a pyval" where
  "wrapper input_core_dims output_core_dims func axis args =
     (case (case axis of
              None \<Rightarrow> Inr args
            | Some ax \<Rightarrow>
                (case verify_axis_is_supported input_core_dims output_core_dims of
                   Inl e \<Rightarrow> Inl e
                 | Inr u \<Rightarrow> reorder_inputs args ax input_core_dims)) of
        Inl e \<Rightarrow> Inl e
      | Inr args1 \<Rightarrow>
          (case broadcast_with_core_dims args1 input_core_dims output_core_dims of
             Inl e \<Rightarrow> Inl e
           | Inr broadcast_args \<Rightarrow>
               (case num_batch_dims broadcast_args input_core_dims of
                  Inl e \<Rightarrow> Inl e
                | Inr nb \<Rightarrow>
                    let vectorized_func = (vmap ^^ nat nb) func in
                    (case vectorized_func broadcast_args of
                       Inl e \<Rightarrow> Inl e
                     | Inr result \<Rightarrow>
                         (case axis of
                            None \<Rightarrow> Inr result
                          | Some ax \<Rightarrow> reorder_outputs result ax output_core_dims)))))"

subsection \<open>Regular expressions as \<^verbatim>\<open>re\<close> matches them\<close>

text \<open>
  Modelled from the spec: the module \<^verbatim>\<open>re\<close> is Python's.  The patterns of the notebook use a
  literal character, the class \<^verbatim>\<open>\w\<close>, concatenation, a group with \<^verbatim>\<open>?\<close> or \<^verbatim>\<open>*\<close> or
  \<^verbatim>\<open>+\<close> (all greedy) and \<^verbatim>\<open>$\<close>.  \<open>ends r s\<close> lists what is left of \<open>s\<close> after each way of
  matching \<open>r\<close> at its start, in the order in which Python's backtracking matcher tries them
  (a greedy operator tries one more repetition first); the first entry is the match that
  \<^verbatim>\<open>re\<close> reports.  \<^verbatim>\<open>$\<close> matches at the end of the string and just before a newline that is
  the last character.  A repetition that consumed nothing is not repeated again.
\<close>

datatype regex =
    Chr char
  | Cls "char \<Rightarrow> bool"
  | Seq regex regex
  | Opt regex
  | Star regex
  | Eos

fun ends :: "regex \<Rightarrow> string \<Rightarrow> string list" where
  "ends (Chr c) s = (case s of [] \<Rightarrow> [] | x # t \<Rightarrow> if x = c then [t] else [])"
| "ends (Cls p) s = (case s of [] \<Rightarrow> [] | x # t \<Rightarrow> if p x then [t] else [])"
| "ends (Seq a b) s = concat (map (ends b) (ends a s))"
| "ends (Opt a) s = ends a s @ [s]"
| "ends (Star a) s =
     concat (map (\<lambda>t. if length t < length s then ends (Star a) t else []) (ends a s)) @ [s]"
| "ends Eos s = (if s = [] \<or> s = [CHR 0x0A] then [s] else [])"

definition Plus :: "regex \<Rightarrow> regex" where
  "Plus a = Seq a (Star a)"

text \<open>\<^verbatim>\<open>re.match(pattern, string)\<close> is not \<^verbatim>\<open>None\<close>: the pattern matches at the start.\<close>

definition re_match :: "regex \<Rightarrow> string \<Rightarrow> bool" where
  "re_match r s = (ends r s \<noteq> [])"

text \<open>
  \<^verbatim>\<open>re.findall(pattern, string)\<close> for a pattern without capturing groups: the matched texts,
  scanning from the left, each search starting where the previous match ended; where the
  pattern does not match, the scan moves one character on.
\<close>

function findall :: "regex \<Rightarrow> string \<Rightarrow> string list" where
  "findall r s =
     (case ends r s of
        [] \<Rightarrow> (case s of [] \<Rightarrow> [] | x # s' \<Rightarrow> findall r s')
      | t # ts \<Rightarrow>
          if length t < length s then take (length s - length t) s # findall r t
          else (case s of [] \<Rightarrow> [[]] | x # s' \<Rightarrow> [] # findall r s'))"
  by pat_completeness auto
termination
  by (relation "measure (\<lambda>(r, s). length s)") auto

declare findall.simps [simp del]

text \<open>
  \<^verbatim>\<open>signature.split('->')\<close>: the pieces between the occurrences of the separator, found from
  the left without overlap.
\<close>

fun split_arrow :: "string \<Rightarrow> string list" where
  "split_arrow [] = [[]]"
| "split_arrow (c # s) =
     (if c = CHR ''-'' \<and> s \<noteq> [] \<and> hd s = CHR ''>'' then [] # split_arrow (tl s)
      else (case split_arrow s of [] \<Rightarrow> [[c]] | p # ps \<Rightarrow> (c # p) # ps))"

subsection \<open>The signature grammar and \<^verbatim>\<open>_parse_gufunc_signature\<close>\<close>

text \<open>
  \<^verbatim>\<open>
    _DIMENSION_NAME = r'\w+'
    _CORE_DIMENSION_LIST = '(?:{0:}(?:,{0:})*)?'.format(_DIMENSION_NAME)
    _ARGUMENT = r'\({}\)'.format(_CORE_DIMENSION_LIST)
    _ARGUMENT_LIST = '{0:}(?:,{0:})*'.format(_ARGUMENT)
    _SIGNATURE = '^{0:}->{0:}$'.format(_ARGUMENT_LIST)
  \<close>
  On a \<^verbatim>\<open>str\<close> pattern \<^verbatim>\<open>\w\<close> matches the letters, digits and underscore of ASCII and the
  characters outside ASCII that Unicode counts as alphanumeric.  The Unicode table is a
  parameter: \<open>uw c\<close> says whether a character \<open>c\<close> outside ASCII is a word character.
  \<^verbatim>\<open>^\<close> asks nothing of \<^verbatim>\<open>re.match\<close>, which matches at the start of the string only.
\<close>

definition ascii_word :: "char \<Rightarrow> bool" where
  "ascii_word c =
     (c \<in> set (''abcdefghijklmnopqrstuvwxyz'' @ ''ABCDEFGHIJKLMNOPQRSTUVWXYZ'' @ ''0123456789_''))"

definition word_char :: "(char \<Rightarrow> bool) \<Rightarrow> char \<Rightarrow> bool" where
  "word_char uw c = (if digit7 c then uw c else ascii_word c)"

definition DIMENSION_NAME :: "(char \<Rightarrow> bool) \<Rightarrow> regex" where
  "DIMENSION_NAME uw = Plus (Cls (word_char uw))"

definition CORE_DIMENSION_LIST :: "(char \<Rightarrow> bool) \<Rightarrow> regex" where
  "CORE_DIMENSION_LIST uw =
     Opt (Seq (DIMENSION_NAME uw) (Star (Seq (Chr CHR '','') (DIMENSION_NAME uw))))"

definition ARGUMENT :: "(char \<Rightarrow> bool) \<Rightarrow> regex" where
  "ARGUMENT uw = Seq (Chr CHR ''('') (Seq (CORE_DIMENSION_LIST uw) (Chr CHR '')''))"

definition ARGUMENT_LIST :: "(char \<Rightarrow> bool) \<Rightarrow> regex" where
  "ARGUMENT_LIST uw = Seq (ARGUMENT uw) (Star (Seq (Chr CHR '','') (ARGUMENT uw)))"

definition SIGNATURE :: "(char \<Rightarrow> bool) \<Rightarrow> regex" where
  "SIGNATURE uw =
     Seq (ARGUMENT_LIST uw) (Seq (Chr CHR ''-'') (Seq (Chr CHR ''>'') (Seq (ARGUMENT_LIST uw) Eos)))"

text \<open>
  \<^verbatim>\<open>
    if not re.match(_SIGNATURE, signature):
        raise ValueError('not a valid gufunc signature: {}'.format(signature))
    return tuple([tuple(re.findall(_DIMENSION_NAME, arg))
                  for arg in re.findall(_ARGUMENT, arg_list)]
                 for arg_list in signature.split('->'))
  \<close>
  The result has one entry for each piece of the split.
\<close>

definition parse_gufunc_signature :: "(char \<Rightarrow> bool) \<Rightarrow> string \<Rightarrow> error + string list list list" where
  "parse_gufunc_signature uw signature =
     (if \<not> re_match (SIGNATURE uw) signature then Inl (InvalidSignature signature)
      else
        Inr (map (\<lambda>arg_list. map (\<lambda>arg. findall (DIMENSION_NAME uw) arg)
                                (findall (ARGUMENT uw) arg_list))
               (split_arrow signature)))"

subsection \<open>\<^verbatim>\<open>vectorize\<close>\<close>

text \<open>
  \<^verbatim>\<open>
    def vectorize(signature):
      input_core_dims, output_core_dims = _parse_gufunc_signature(signature)
      def decorator(func):
        def wrapper(*args, axis=None): ...
        return wrapper
      return decorator
  \<close>
  \<open>vectorize\<close> returns the decorator or fails; the decorator applied to a core function is
  the wrapper.  Unpacking a tuple that has not two entries raises.
\<close>

definition vectorize ::
  "(char \<Rightarrow> bool) \<Rightarrow> string \<Rightarrow>
     error + ('a corefn \<Rightarrow> int option \<Rightarrow> 'a ndarray list \<Rightarrow> error + 'a pyval)" where
  "vectorize uw signature =
     (case parse_gufunc_signature uw signature of
        Inl e \<Rightarrow> Inl e
      | Inr sides \<Rightarrow>
          (case sides of
             [input_core_dims, output_core_dims] \<Rightarrow> Inr (wrapper input_core_dims output_core_dims)
           | _ \<Rightarrow> Inl UnpackError))"

text \<open>The wrapped function called: the decorator applied to \<open>func\<close>, then to the arguments.\<close>

definition call_vectorized ::
  "(char \<Rightarrow> bool) \<Rightarrow> string \<Rightarrow> 'a corefn \<Rightarrow> int option \<Rightarrow> 'a ndarray list \<Rightarrow> error + 'a pyval" where
  "call_vectorized uw signature func axis args =
     (case vectorize uw signature of Inl e \<Rightarrow> Inl e | Inr decorator \<Rightarrow> decorator func axis args)"

subsection \<open>The notebook's test function \<^verbatim>\<open>center\<close>\<close>

text \<open>
  \<^verbatim>\<open>
    @vectorize('(n)->(),(n)')
    def center(array):
      bias = jnp.mean(array)
      debiased = array - bias
      return bias, debiased
  \<close>
  \<^verbatim>\<open>jnp.mean\<close> without an axis is the mean of all elements, a rank-0 array; the elements are
  taken in a field, with exact arithmetic.
\<close>

fun all_indices :: "nat list \<Rightarrow> nat list list" where
  "all_indices [] = [[]]"
| "all_indices (d # ds) = concat (map (\<lambda>i. map ((#) i) (all_indices ds)) [0..<d])"

definition mean :: "('a::field) ndarray \<Rightarrow> 'a" where
  "mean a = sum_list (map (item a) (all_indices (shape a))) / of_nat (length (all_indices (shape a)))"

definition center :: "('a::field) corefn" where
  "center args =
     (case args of
        [array] \<Rightarrow>
          let bias = mean array in
          Inr (Tup [\<lparr>shape = [], item = (\<lambda>idx. bias)\<rparr>,
                    \<lparr>shape = shape array, item = (\<lambda>idx. item array idx - bias)\<rparr>])
      | _ \<Rightarrow> Inl CoreError)"

subsection \<open>Notions used to state the properties\<close>

text \<open>
  The core shape of an argument is its trailing entries, one for each declared core dimension;
  its prefix is what stands before them.  \<open>core_pairs\<close> is the sequence of all names with
  their paired sizes, in argument order; \<open>ranks_ok\<close> says that every argument has at least
  as many dimensions as core dimensions declared for it.
\<close>

definition core_shape_of :: "'a ndarray \<Rightarrow> string list \<Rightarrow> nat list" where
  "core_shape_of arg core_dims = drop (ndim arg - length core_dims) (shape arg)"

definition prefix_of :: "'a ndarray \<Rightarrow> string list \<Rightarrow> nat list" where
  "prefix_of arg core_dims = take (ndim arg - length core_dims) (shape arg)"

definition core_pairs :: "'a ndarray list \<Rightarrow> string list list \<Rightarrow> (string \<times> nat) list" where
  "core_pairs args input_core_dims =
     concat (map (\<lambda>(arg, core_dims). zip core_dims (core_shape_of arg core_dims))
               (zip args input_core_dims))"

definition prefixes :: "'a ndarray list \<Rightarrow> string list list \<Rightarrow> nat list list" where
  "prefixes args input_core_dims =
     map (\<lambda>(arg, core_dims). prefix_of arg core_dims) (zip args input_core_dims)"

definition ranks_ok :: "'a ndarray list \<Rightarrow> string list list \<Rightarrow> bool" where
  "ranks_ok args input_core_dims =
     list_all (\<lambda>(arg, core_dims). length core_dims \<le> ndim arg) (zip args input_core_dims)"

text \<open>A vector of \<open>n\<close> zeros, for the examples.\<close>

definition vec :: "nat \<Rightarrow> nat ndarray" where
  "vec n = \<lparr>shape = [n], item = (\<lambda>idx. 0)\<rparr>"

text \<open>
  A rank-0 array, a core function that returns its first argument, and the Unicode table in
  which no character outside ASCII is a word character, for the examples.
\<close>

definition scalar0 :: "nat ndarray" where
  "scalar0 = \<lparr>shape = [], item = (\<lambda>idx. 0)\<rparr>"

definition first_arg :: "'a corefn" where
  "first_arg xs = (case xs of [] \<Rightarrow> Inl CoreError | x # rest \<Rightarrow> Inr (Arr x))"

definition ascii_only :: "char \<Rightarrow> bool" where
  "ascii_only c = False"

text \<open>
  The view of broadcasting one position at a time, for the proofs: \<open>dim_from_right r j\<close> is
  the entry of a reversed shape at position \<open>j\<close>, 1 where the shape has none;
  \<open>combine_dim\<close> combines two entries; \<open>column\<close> combines the entries of all shapes at one
  position.  \<open>zeros shp\<close> is an array of zeros of a given shape, for the examples.
\<close>

definition combine_dim :: "nat \<Rightarrow> nat \<Rightarrow> nat option" where
  "combine_dim d t = (if t = 1 then Some d else if d = 1 then Some t else if d = t then Some d else None)"

definition dim_from_right :: "nat list \<Rightarrow> nat \<Rightarrow> nat" where
  "dim_from_right r j = (if j < length r then r ! j else 1)"

definition column :: "nat option \<Rightarrow> nat list list \<Rightarrow> nat \<Rightarrow> nat option" where
  "column acc rs j =
     foldl (\<lambda>a r. case a of None \<Rightarrow> None | Some d \<Rightarrow> combine_dim d (dim_from_right r j)) acc rs"

definition zeros :: "nat list \<Rightarrow> nat ndarray" where
  "zeros shp = \<lparr>shape = shp, item = (\<lambda>idx. 0)\<rparr>"

subsection \<open>The grammar of signatures\<close>

text \<open>
  The language of a pattern, for the proofs: \<open>star L\<close> is the concatenations of nonempty words
  of \<open>L\<close>; \<open>rests r s\<close> is what can be left of \<open>s\<close> after a word of \<open>r\<close> at its start.
  \<open>$\<close> is not a language and is excluded by \<open>eos_free\<close>.
\<close>

inductive_set star :: "string set \<Rightarrow> string set" for L :: "string set" where
  star_Nil: "[] \<in> star L"
| star_step: "u \<in> L \<Longrightarrow> u \<noteq> [] \<Longrightarrow> v \<in> star L \<Longrightarrow> u @ v \<in> star L"

fun lang :: "regex \<Rightarrow> string set" where
  "lang (Chr c) = {[c]}"
| "lang (Cls p) = {[x] | x. p x}"
| "lang (Seq a b) = {u @ v | u v. u \<in> lang a \<and> v \<in> lang b}"
| "lang (Opt a) = insert [] (lang a)"
| "lang (Star a) = star (lang a)"
| "lang Eos = {[]}"

fun eos_free :: "regex \<Rightarrow> bool" where
  "eos_free (Chr c) = True"
| "eos_free (Cls p) = True"
| "eos_free (Seq a b) = (eos_free a \<and> eos_free b)"
| "eos_free (Opt a) = eos_free a"
| "eos_free (Star a) = eos_free a"
| "eos_free Eos = False"

definition rests :: "regex \<Rightarrow> string \<Rightarrow> string set" where
  "rests r s = {t. \<exists>u \<in> lang r. s = u @ t}"

text \<open>
  The grammar of section 6, generatively: a signature is built from its groups of names by
  \<open>render_signature\<close>, which joins the names of a group with commas inside parentheses, the
  groups of a side with commas, and the two sides with the arrow.  A name is a nonempty string
  of word characters (\<open>is_name\<close>, with the characters \<^verbatim>\<open>\w\<close> matches), a side has at least one
  group (\<open>groups_ok\<close>).  \<open>in_grammar\<close> is the grammar as the specification words it, with
  names over \<^verbatim>\<open>[A-Za-z0-9_]\<close> and nothing after the last group.
\<close>

fun join :: "string \<Rightarrow> string list \<Rightarrow> string" where
  "join sep [] = []"
| "join sep [x] = x"
| "join sep (x # y # ys) = x @ sep @ join sep (y # ys)"

definition render_group :: "string list \<Rightarrow> string" where
  "render_group g = ''('' @ join '','' g @ '')''"

definition render_groups :: "string list list \<Rightarrow> string" where
  "render_groups gs = join '','' (map render_group gs)"

definition render_signature :: "string list list \<Rightarrow> string list list \<Rightarrow> string" where
  "render_signature ins outs = render_groups ins @ ''->'' @ render_groups outs"

definition is_name :: "(char \<Rightarrow> bool) \<Rightarrow> string \<Rightarrow> bool" where
  "is_name uw n = (n \<noteq> [] \<and> (\<forall>c \<in> set n. word_char uw c))"

definition group_ok :: "(char \<Rightarrow> bool) \<Rightarrow> string list \<Rightarrow> bool" where
  "group_ok uw g = (\<forall>n \<in> set g. is_name uw n)"

definition groups_ok :: "(char \<Rightarrow> bool) \<Rightarrow> string list list \<Rightarrow> bool" where
  "groups_ok uw gs = (gs \<noteq> [] \<and> (\<forall>g \<in> set gs. group_ok uw g))"

definition grammar_name :: "string \<Rightarrow> bool" where
  "grammar_name n = (n \<noteq> [] \<and> (\<forall>c \<in> set n. ascii_word c))"

definition in_grammar :: "string \<Rightarrow> bool" where
  "in_grammar s =
     (\<exists>ins outs. ins \<noteq> [] \<and> outs \<noteq> [] \<and> (\<forall>g \<in> set (ins @ outs). \<forall>n \<in> set g. grammar_name n)
        \<and> s = render_signature ins outs)"

text \<open>
  The explicit loop over the broadcast prefix: \<open>slice_at idx a\<close> is the part of \<open>a\<close> at
  the leading index tuple \<open>idx\<close>, and \<open>sub_at idx v\<close> that part of every array of a result.
\<close>

definition slice_at :: "nat list \<Rightarrow> 'a ndarray \<Rightarrow> 'a ndarray" where
  "slice_at idx a = \<lparr>shape = drop (length idx) (shape a), item = (\<lambda>c. item a (idx @ c))\<rparr>"

definition sub_at :: "nat list \<Rightarrow> 'a pyval \<Rightarrow> 'a pyval" where
  "sub_at idx v = (case v of Arr a \<Rightarrow> Arr (slice_at idx a) | Tup as \<Rightarrow> Tup (map (slice_at idx) as))"

text \<open>
  The contract of a core function: called on arrays of the shapes \<open>cs\<close>, it returns a result
  of form \<open>(t, os)\<close>, that is one array of shape \<open>os ! 0\<close> when \<open>t\<close> is false and a tuple of
  arrays of the shapes \<open>os\<close> when \<open>t\<close> is true.  \<open>core_shapes\<close> are the arguments' core
  shapes; \<open>compatible s t\<close> says that the shape \<open>s\<close> broadcasts to \<open>t\<close>.
\<close>

definition contract :: "'a corefn \<Rightarrow> nat list list \<Rightarrow> bool \<Rightarrow> nat list list \<Rightarrow> bool" where
  "contract f cs t os = (\<forall>xs. map shape xs = cs \<longrightarrow> (\<exists>v. f xs = Inr v \<and> form v = (t, os)))"

definition core_shapes :: "'a ndarray list \<Rightarrow> string list list \<Rightarrow> nat list list" where
  "core_shapes args input_core_dims =
     map (\<lambda>(arg, core_dims). core_shape_of arg core_dims) (zip args input_core_dims)"

definition compatible :: "nat list \<Rightarrow> nat list \<Rightarrow> bool" where
  "compatible s t =
     (length s \<le> length t \<and> list_all2 (\<lambda>d e. d = e \<or> d = 1) s (drop (length t - length s) t))"

text \<open>
  Core functions for the examples: one that returns zeros of a given shape whatever its
  arguments, and one that returns its first argument twice.
\<close>

definition zeros_out :: "nat list \<Rightarrow> nat corefn" where
  "zeros_out shp args = Inr (Arr (zeros shp))"

definition pair_arg :: "'a corefn" where
  "pair_arg xs = (case xs of [] \<Rightarrow> Inl CoreError | x # rest \<Rightarrow> Inr (Tup [x, x]))"

subsection \<open>The notebook's example: \<^verbatim>\<open>center\<close> on a 3-by-4 matrix\<close>

text \<open>
  \<^verbatim>\<open>
    X = masked_array(onp.random.RandomState(0).randn(3, 4), ...)
    b, a = center(X, axis=1)
    b, a = center(X, axis=0)
  \<close>
  \<open>matrix34 x\<close> is the 3-by-4 matrix with the element \<open>x [i, j]\<close> at row \<open>i\<close> and column
  \<open>j\<close>; \<open>row_mean x i\<close> and \<open>col_mean x j\<close> are the means of its row \<open>i\<close> and its column
  \<open>j\<close>; \<open>arange12\<close> holds the numbers 0 to 11 in row-major order.
\<close>

definition matrix34 :: "(nat list \<Rightarrow> 'a) \<Rightarrow> 'a ndarray" where
  "matrix34 x = \<lparr>shape = [3, 4], item = x\<rparr>"

definition row_mean :: "(nat list \<Rightarrow> 'a::field) \<Rightarrow> nat \<Rightarrow> 'a" where
  "row_mean x i = (x [i, 0] + x [i, 1] + x [i, 2] + x [i, 3]) / 4"

definition col_mean :: "(nat list \<Rightarrow> 'a::field) \<Rightarrow> nat \<Rightarrow> 'a" where
  "col_mean x j = (x [0, j] + x [1, j] + x [2, j]) / 3"

definition arange12 :: "nat list \<Rightarrow> 'a::field_char_0" where
  "arange12 idx = of_nat (4 * (idx ! 0) + idx ! 1)"

section \<open>Dimension resolution\<close>

subsection \<open>The walk over names and sizes\<close>

lemma update_loop_append:
  "update_loop ds (ps @ qs) = (case update_loop ds ps of Inl e \<Rightarrow> Inl e | Inr ds1 \<Rightarrow> update_loop ds1 qs)"
  by (induction ps arbitrary: ds) (auto split: option.splits)

lemma update_loop_first:
  "update_loop ds ps = Inr ds' \<Longrightarrow> ds' d = (case ds d of Some v \<Rightarrow> Some v | None \<Rightarrow> map_of ps d)"
  by (induction ps arbitrary: ds) (auto split: option.splits if_splits)

lemma update_loop_conflict:
  assumes "update_loop ds pre = Inr ds1" and "ds1 d = Some v" and "s \<noteq> v"
  shows "update_loop ds (pre @ (d, s) # post) = Inl (InconsistentDimension d s v)"
  using assms by (simp add: update_loop_append)

lemma update_loop_error:
  "update_loop ds ps = Inl e \<Longrightarrow>
     \<exists>pre d s post ds1 v. ps = pre @ (d, s) # post \<and> update_loop ds pre = Inr ds1 \<and> ds1 d = Some v
        \<and> s \<noteq> v \<and> e = InconsistentDimension d s v"
proof (induction ps arbitrary: ds)
  case Nil
  then show ?case by simp
next
  case (Cons p rest)
  obtain d0 s0 where p: "p = (d0, s0)" by (cases p)
  note 2 = Cons [unfolded p]
  have "\<exists>pre d s post ds1 v. (d0, s0) # rest = pre @ (d, s) # post \<and> update_loop ds pre = Inr ds1
          \<and> ds1 d = Some v \<and> s \<noteq> v \<and> e = InconsistentDimension d s v"
  proof (cases "ds d0")
    case None
    from 2(2) None have "update_loop (ds(d0 \<mapsto> s0)) rest = Inl e" by simp
    from 2(1) [OF this] obtain pre d s post ds1 v where h: "rest = pre @ (d, s) # post"
      "update_loop (ds(d0 \<mapsto> s0)) pre = Inr ds1" "ds1 d = Some v" "s \<noteq> v" "e = InconsistentDimension d s v"
      by blast
    from h None have "(d0, s0) # rest = ((d0, s0) # pre) @ (d, s) # post \<and> update_loop ds ((d0, s0) # pre) = Inr ds1"
      by simp
    with h show ?thesis by blast
  next
    case (Some v0)
    show ?thesis
    proof (cases "s0 = v0")
      case True
      from 2(2) Some True have "update_loop ds rest = Inl e" by simp
      from 2(1) [OF this] obtain pre d s post ds1 v where h: "rest = pre @ (d, s) # post"
        "update_loop ds pre = Inr ds1" "ds1 d = Some v" "s \<noteq> v" "e = InconsistentDimension d s v"
        by blast
      from h Some True have "(d0, s0) # rest = ((d0, s0) # pre) @ (d, s) # post \<and> update_loop ds ((d0, s0) # pre) = Inr ds1"
        by simp
      with h show ?thesis by blast
    next
      case False
      with 2 Some have "e = InconsistentDimension d0 s0 v0" by simp
      moreover have "(d0, s0) # rest = [] @ (d0, s0) # rest \<and> update_loop ds [] = Inr ds" by simp
      ultimately show ?thesis using Some False by blast
    qed
  qed
  then show ?case by (simp only: p)
qed

lemma update_dim_sizes_rank:
  "update_dim_sizes ds arg cd = Inr ds' \<Longrightarrow> length cd \<le> ndim arg"
  by (auto simp: update_dim_sizes_def Let_def split: if_splits)

lemma update_dim_sizes_walk:
  "length cd \<le> ndim arg \<Longrightarrow> update_dim_sizes ds arg cd = update_loop ds (zip cd (core_shape_of arg cd))"
  by (auto simp: update_dim_sizes_def Let_def core_shape_of_def)

lemma update_dim_sizes_insufficient:
  "(\<exists>n c. update_dim_sizes ds arg cd = Inl (InsufficientRank n c)) \<longleftrightarrow> ndim arg < length cd"
proof
  assume "\<exists>n c. update_dim_sizes ds arg cd = Inl (InsufficientRank n c)"
  then obtain n c where h: "update_dim_sizes ds arg cd = Inl (InsufficientRank n c)" by blast
  show "ndim arg < length cd"
  proof (rule ccontr)
    assume "\<not> ndim arg < length cd"
    then have "update_dim_sizes ds arg cd = update_loop ds (zip cd (core_shape_of arg cd))"
      by (simp add: update_dim_sizes_walk)
    with h have "update_loop ds (zip cd (core_shape_of arg cd)) = Inl (InsufficientRank n c)" by simp
    from update_loop_error [OF this] show False by auto
  qed
next
  assume "ndim arg < length cd"
  then show "\<exists>n c. update_dim_sizes ds arg cd = Inl (InsufficientRank n c)"
    by (auto simp: update_dim_sizes_def Let_def)
qed

lemma core_pairs_Cons [simp]:
  "core_pairs (arg # args) (cd # icd) = zip cd (core_shape_of arg cd) @ core_pairs args icd"
  by (simp add: core_pairs_def)

lemma prefixes_Cons [simp]:
  "prefixes (arg # args) (cd # icd) = prefix_of arg cd # prefixes args icd"
  by (simp add: prefixes_def)

lemma pid_loop_walk:
  "ranks_ok args icd \<Longrightarrow>
   pid_loop ds bas (zip args icd) =
     (case update_loop ds (core_pairs args icd) of
        Inl e \<Rightarrow> Inl e
      | Inr ds' \<Rightarrow> Inr (bas @ prefixes args icd, ds'))"
proof (induction args icd arbitrary: ds bas rule: list_induct2')
  case (4 arg args cd icd)
  then have r: "length cd \<le> ndim arg" and rs: "ranks_ok args icd"
    by (simp_all add: ranks_ok_def)
  show ?case
  proof (cases "update_loop ds (zip cd (core_shape_of arg cd))")
    case (Inl e)
    then show ?thesis using r
      by (simp add: update_dim_sizes_walk update_loop_append)
  next
    case (Inr ds1)
    then show ?thesis using r 4(1) [OF rs, of ds1 "bas @ [prefix_of arg cd]"]
      by (simp add: update_dim_sizes_walk update_loop_append Let_def prefix_of_def [symmetric]
            split: sum.splits)
  qed
qed (simp_all add: core_pairs_def prefixes_def)

lemma pid_loop_ranks:
  "pid_loop ds bas (zip args icd) = Inr r \<Longrightarrow> ranks_ok args icd"
proof (induction args icd arbitrary: ds bas rule: list_induct2')
  case (4 arg args cd icd)
  then show ?case
    by (auto simp: ranks_ok_def Let_def split: sum.splits dest: update_dim_sizes_rank)
qed (simp_all add: ranks_ok_def)

lemma update_dim_sizes_low_rank:
  "ndim arg < length cd \<Longrightarrow> update_dim_sizes ds arg cd = Inl (InsufficientRank (ndim arg) cd)"
  by (auto simp: update_dim_sizes_def Let_def)

lemma update_dim_sizes_insufficient_eq:
  "update_dim_sizes ds arg cd = Inl (InsufficientRank n c) \<longleftrightarrow> ndim arg < length cd \<and> n = ndim arg \<and> c = cd"
proof
  assume h: "update_dim_sizes ds arg cd = Inl (InsufficientRank n c)"
  then have "ndim arg < length cd" using update_dim_sizes_insufficient by blast
  with h show "ndim arg < length cd \<and> n = ndim arg \<and> c = cd"
    by (simp add: update_dim_sizes_low_rank)
qed (simp add: update_dim_sizes_low_rank)

lemma pid_loop_insufficient:
  "pid_loop ds bas (zip args icd) = Inl (InsufficientRank n c) \<longleftrightarrow>
     (\<exists>i. i < length args \<and> i < length icd \<and> n = ndim (args ! i) \<and> c = icd ! i
          \<and> ndim (args ! i) < length (icd ! i)
          \<and> (\<exists>r. pid_loop ds bas (zip (take i args) (take i icd)) = Inr r))"
proof (induction args icd arbitrary: ds bas rule: list_induct2')
  case (4 arg args cd icd)
  let ?R = "\<lambda>ds bas args icd i. i < length args \<and> i < length icd \<and> n = ndim (args ! i) \<and> c = icd ! i
          \<and> ndim (args ! i) < length (icd ! i)
          \<and> (\<exists>r. pid_loop ds bas (zip (take i args) (take i icd)) = Inr r)"
  show ?case
  proof (cases "update_dim_sizes ds arg cd")
    case (Inl e)
    have rhs: "(\<exists>i. ?R ds bas (arg # args) (cd # icd) i) \<longleftrightarrow> ?R ds bas (arg # args) (cd # icd) 0"
    proof
      assume "\<exists>i. ?R ds bas (arg # args) (cd # icd) i"
      then obtain i where i: "?R ds bas (arg # args) (cd # icd) i" by blast
      show "?R ds bas (arg # args) (cd # icd) 0"
      proof (cases i)
        case 0
        with i show ?thesis by simp
      next
        case (Suc j)
        with i Inl show ?thesis by simp
      qed
    qed blast
    show ?thesis unfolding rhs using Inl
      by (auto simp: update_dim_sizes_insufficient_eq update_dim_sizes_low_rank)
  next
    case (Inr ds1)
    then have r: "length cd \<le> ndim arg" by (rule update_dim_sizes_rank)
    have rhs: "(\<exists>i. ?R ds bas (arg # args) (cd # icd) i)
                 \<longleftrightarrow> (\<exists>j. ?R ds1 (bas @ [take (ndim arg - length cd) (shape arg)]) args icd j)"
    proof
      assume "\<exists>i. ?R ds bas (arg # args) (cd # icd) i"
      then obtain i where i: "?R ds bas (arg # args) (cd # icd) i" by blast
      show "\<exists>j. ?R ds1 (bas @ [take (ndim arg - length cd) (shape arg)]) args icd j"
      proof (cases i)
        case 0
        with i r show ?thesis by simp
      next
        case (Suc j)
        with i Inr have "?R ds1 (bas @ [take (ndim arg - length cd) (shape arg)]) args icd j"
          by (simp add: Let_def)
        then show ?thesis by blast
      qed
    next
      assume "\<exists>j. ?R ds1 (bas @ [take (ndim arg - length cd) (shape arg)]) args icd j"
      then obtain j where j: "?R ds1 (bas @ [take (ndim arg - length cd) (shape arg)]) args icd j" by blast
      with Inr have "?R ds bas (arg # args) (cd # icd) (Suc j)"
        by (simp add: Let_def)
      then show "\<exists>i. ?R ds bas (arg # args) (cd # icd) i" by blast
    qed
    show ?thesis unfolding rhs using Inr 4 [of ds1 "bas @ [take (ndim arg - length cd) (shape arg)]"]
      by (simp add: Let_def)
  qed
qed simp_all

lemma np_broadcast_shape_error:
  "np_broadcast_shape shapes = Inl e \<Longrightarrow> e = BroadcastError"
  by (auto simp: np_broadcast_shape_def Let_def split: if_splits)

lemma parse_input_dimensions_insufficient:
  "parse_input_dimensions args icd = Inl (InsufficientRank n c) \<longleftrightarrow>
     pid_loop Map.empty [] (zip args icd) = Inl (InsufficientRank n c)"
  by (auto simp: parse_input_dimensions_def split: sum.splits dest: np_broadcast_shape_error)

lemmas grammar_defs = SIGNATURE_def ARGUMENT_LIST_def ARGUMENT_def CORE_DIMENSION_LIST_def
  DIMENSION_NAME_def Plus_def word_char_def ascii_word_def

lemma parse_nn: "parse_gufunc_signature uw ''(n),(n)->()'' = Inr [[[''n''], [''n'']], [[]]]"
  by (simp add: parse_gufunc_signature_def re_match_def grammar_defs findall.simps)

lemma parse_input_dimensions_walk:
  "ranks_ok args icd \<Longrightarrow>
   parse_input_dimensions args icd =
     (case update_loop Map.empty (core_pairs args icd) of
        Inl e \<Rightarrow> Inl e
      | Inr ds \<Rightarrow> (case np_broadcast_shape (prefixes args icd) of
                      Inl e \<Rightarrow> Inl e | Inr bs \<Rightarrow> Inr (bs, ds)))"
  by (simp add: parse_input_dimensions_def pid_loop_walk split: sum.splits)

lemma wrapper_resolver_error:
  "length args = length icd \<Longrightarrow> parse_input_dimensions args icd = Inl e \<Longrightarrow>
   wrapper icd ocd func None args = Inl e"
  by (simp add: wrapper_def broadcast_with_core_dims_def)

section \<open>The axis check\<close>

lemma foldl_verify_step:
  "foldl verify_step st gs =
     (fst st \<union> \<Union> (set ` set gs), if gs = [] then snd st else Some (last gs))"
  by (induction gs arbitrary: st) (auto simp: verify_step_def)

lemma verify_loops_eq:
  "verify_loops icd ocd =
     (\<Union> (set ` set (icd @ ocd)), if icd @ ocd = [] then None else Some (last (icd @ ocd)))"
  by (auto simp: verify_loops_def foldl_verify_step)

lemma all_core_dims_eq: "all_core_dims icd ocd = \<Union> (set ` set (icd @ ocd))"
  by (simp add: all_core_dims_def verify_loops_eq)

lemma verify_axis_is_supported_last:
  "icd @ ocd \<noteq> [] \<Longrightarrow>
   verify_axis_is_supported icd ocd =
     (if length (last (icd @ ocd)) > 1 then Inl AxisNotSupported else Inr ())"
  by (simp add: verify_axis_is_supported_def verify_loops_eq)

lemma wrapper_axis_check_first:
  "verify_axis_is_supported icd ocd = Inl e \<Longrightarrow> wrapper icd ocd func (Some ax) args = Inl e"
  by (simp add: wrapper_def)

lemma parse_unit: "parse_gufunc_signature uw ''()->()'' = Inr [[[]], [[]]]"
  by (simp add: parse_gufunc_signature_def re_match_def grammar_defs findall.simps)

lemma parse_nmn: "parse_gufunc_signature uw ''(n),(m)->(n)'' = Inr [[[''n''], [''m'']], [[''n'']]]"
  by (simp add: parse_gufunc_signature_def re_match_def grammar_defs findall.simps)

lemma parse_n_nm: "parse_gufunc_signature uw ''(n)->(n,m)'' = Inr [[[''n'']], [[''n'', ''m'']]]"
  by (simp add: parse_gufunc_signature_def re_match_def grammar_defs findall.simps)

section \<open>Broadcast shapes\<close>

lemma column_Nil [simp]: "column acc [] j = acc"
  by (simp add: column_def)

lemma column_Cons [simp]:
  "column (Some d) (r # rs) j = column (combine_dim d (dim_from_right r j)) rs j"
  by (simp add: column_def)

lemma column_None [simp]: "column None rs j = None"
  by (induction rs) (simp_all add: column_def)

lemma dim_from_right_Nil [simp]: "dim_from_right [] j = 1"
  by (simp add: dim_from_right_def)

lemma dim_from_right_Cons_0 [simp]: "dim_from_right (x # xs) 0 = x"
  by (simp add: dim_from_right_def)

lemma dim_from_right_Cons_Suc [simp]: "dim_from_right (x # xs) (Suc j) = dim_from_right xs j"
  by (simp add: dim_from_right_def)

lemma combine_dim_1 [simp]:
  "combine_dim d 1 = Some d" "combine_dim 1 t = Some t"
  "combine_dim d (Suc 0) = Some d" "combine_dim (Suc 0) t = Some t"
  by (auto simp: combine_dim_def)

lemma bpair_rev_Some:
  "bpair_rev a b = Some c \<Longrightarrow>
     length c = max (length a) (length b)
     \<and> (\<forall>j. combine_dim (dim_from_right a j) (dim_from_right b j) = Some (dim_from_right c j))"
proof (induction a b arbitrary: c rule: bpair_rev.induct)
  case (1 ys)
  then show ?case by simp
next
  case (2 x xs)
  then show ?case by simp
next
  case (3 x xs y ys)
  from 3(3) obtain c' where c': "bpair_rev xs ys = Some c'"
    and c: "c = (if x = y \<or> y = 1 then x else y) # c'" and ok: "x = y \<or> y = 1 \<or> x = 1"
    by (auto split: if_splits)
  have ih: "length c' = max (length xs) (length ys)
     \<and> (\<forall>j. combine_dim (dim_from_right xs j) (dim_from_right ys j) = Some (dim_from_right c' j))"
  proof (cases "x = y \<or> y = 1")
    case True
    from 3(1) [OF True c'] show ?thesis .
  next
    case False
    with ok have "x = 1" by blast
    from 3(2) [OF False this c'] show ?thesis .
  qed
  show ?case
  proof (intro conjI allI)
    show "length c = max (length (x # xs)) (length (y # ys))" using ih c by simp
  next
    fix j
    show "combine_dim (dim_from_right (x # xs) j) (dim_from_right (y # ys) j) = Some (dim_from_right c j)"
    proof (cases j)
      case 0
      then show ?thesis using c ok by (auto simp: combine_dim_def)
    next
      case (Suc k)
      then show ?thesis using c ih by simp
    qed
  qed
qed

lemma bpair_rev_None:
  "bpair_rev a b = None \<Longrightarrow> \<exists>j. combine_dim (dim_from_right a j) (dim_from_right b j) = None"
proof (induction a b rule: bpair_rev.induct)
  case (3 x xs y ys)
  show ?case
  proof (cases "x = y \<or> y = 1 \<or> x = 1")
    case True
    with 3(3) have n: "bpair_rev xs ys = None" by (auto split: if_splits)
    have "\<exists>j. combine_dim (dim_from_right xs j) (dim_from_right ys j) = None"
    proof (cases "x = y \<or> y = 1")
      case True
      from 3(1) [OF True n] show ?thesis .
    next
      case False
      with True have "x = 1" by blast
      from 3(2) [OF False this n] show ?thesis .
    qed
    then obtain j where "combine_dim (dim_from_right xs j) (dim_from_right ys j) = None" by blast
    then have "combine_dim (dim_from_right (x # xs) (Suc j)) (dim_from_right (y # ys) (Suc j)) = None"
      by simp
    then show ?thesis by blast
  next
    case False
    then have "combine_dim (dim_from_right (x # xs) 0) (dim_from_right (y # ys) 0) = None"
      by (auto simp: combine_dim_def)
    then show ?thesis by blast
  qed
qed simp_all

lemma foldl_max_le: "foldl max (a::nat) xs = max a (foldl max 0 xs)"
proof (induction xs arbitrary: a)
  case (Cons x xs)
  have "foldl max a (x # xs) = max (max a x) (foldl max 0 xs)"
    using Cons [of "max a x"] by simp
  also have "\<dots> = max a (max x (foldl max 0 xs))" by simp
  also have "\<dots> = max a (foldl max 0 (x # xs))" using Cons [of x] by simp
  finally show ?case .
qed simp

lemma max_rank_Nil [simp]: "max_rank [] = 0"
  by (simp add: max_rank_def)

lemma max_rank_Cons [simp]: "max_rank (s # ss) = max (length s) (max_rank ss)"
  using foldl_max_le [of "length s" "map length ss"] by (simp add: max_rank_def)

lemma max_rank_ge: "s \<in> set ss \<Longrightarrow> length s \<le> max_rank ss"
  by (induction ss) auto

lemma broadcast_all_None [simp]: "broadcast_all None ss = None"
  by (induction ss) simp_all

lemma broadcast_all_Some:
  "broadcast_all (Some b) ss = Some c \<Longrightarrow>
     length c = max (length b) (max_rank ss)
     \<and> (\<forall>j. column (Some (dim_from_right (rev b) j)) (map rev ss) j = Some (dim_from_right (rev c) j))"
proof (induction ss arbitrary: b)
  case Nil
  then show ?case by simp
next
  case (Cons s ss)
  from Cons.prems obtain b' where b': "broadcast_pair b s = Some b'"
    by (cases "broadcast_pair b s") simp_all
  then obtain r where r: "bpair_rev (rev b) (rev s) = Some r" and br: "b' = rev r"
    by (auto simp: broadcast_pair_def)
  from bpair_rev_Some [OF r] have len: "length r = max (length b) (length s)"
    and pt: "\<And>j. combine_dim (dim_from_right (rev b) j) (dim_from_right (rev s) j) = Some (dim_from_right r j)"
    by simp_all
  from Cons.prems b' have "broadcast_all (Some b') ss = Some c" by simp
  from Cons.IH [OF this] have ih: "length c = max (length b') (max_rank ss)"
    "\<And>j. column (Some (dim_from_right (rev b') j)) (map rev ss) j = Some (dim_from_right (rev c) j)"
    by simp_all
  show ?case using ih len br by (simp add: pt)
qed

lemma broadcast_all_fails:
  "broadcast_all (Some b) ss = None \<Longrightarrow>
     \<exists>j. column (Some (dim_from_right (rev b) j)) (map rev ss) j = None"
proof (induction ss arbitrary: b)
  case Nil
  then show ?case by simp
next
  case (Cons s ss)
  show ?case
  proof (cases "broadcast_pair b s")
    case None
    then have "bpair_rev (rev b) (rev s) = None" by (simp add: broadcast_pair_def)
    from bpair_rev_None [OF this] obtain j
      where "combine_dim (dim_from_right (rev b) j) (dim_from_right (rev s) j) = None" by blast
    then have "column (Some (dim_from_right (rev b) j)) (map rev (s # ss)) j = None" by simp
    then show ?thesis by blast
  next
    case (Some b')
    then obtain r where r: "bpair_rev (rev b) (rev s) = Some r" and br: "b' = rev r"
      by (auto simp: broadcast_pair_def)
    from bpair_rev_Some [OF r]
    have pt: "\<And>j. combine_dim (dim_from_right (rev b) j) (dim_from_right (rev s) j) = Some (dim_from_right r j)"
      by simp
    from Cons.prems Some have "broadcast_all (Some b') ss = None" by simp
    from Cons.IH [OF this] obtain j
      where "column (Some (dim_from_right (rev b') j)) (map rev ss) j = None" by blast
    then have "column (Some (dim_from_right (rev b) j)) (map rev (s # ss)) j = None"
      using br by (simp add: pt)
    then show ?thesis by blast
  qed
qed

lemma bcast_step_combine:
  assumes "i < nd" and "length s \<le> nd"
  shows "bcast_step nd i s (Some d) = combine_dim d (dim_from_right (rev s) (nd - 1 - i))"
proof (cases "i + length s < nd")
  case True
  then have "\<not> nd - 1 - i < length s" by arith
  with True show ?thesis by (simp add: bcast_step_def dim_from_right_def)
next
  case False
  with assms have lt: "nd - 1 - i < length s" by arith
  have "rev s ! (nd - 1 - i) = s ! (length s - Suc (nd - 1 - i))"
    using lt by (simp add: rev_nth)
  also have "length s - Suc (nd - 1 - i) = i + length s - nd" using assms False by arith
  finally show ?thesis using False lt
    by (simp add: bcast_step_def dim_from_right_def combine_dim_def Let_def)
qed

lemma foldl_bcast_step_column:
  assumes "i < nd" and "\<forall>s \<in> set shapes. length s \<le> nd"
  shows "foldl (\<lambda>acc s. bcast_step nd i s acc) acc shapes = column acc (map rev shapes) (nd - 1 - i)"
  using assms(2)
proof (induction shapes arbitrary: acc)
  case Nil
  then show ?case by simp
next
  case (Cons s shapes)
  show ?case
  proof (cases acc)
    case None
    have "foldl (\<lambda>acc s. bcast_step nd i s acc) None shapes = None"
      by (induction shapes) (simp_all add: bcast_step_def)
    with None show ?thesis by (simp add: bcast_step_def)
  next
    case (Some d)
    with Cons assms(1) show ?thesis by (simp add: bcast_step_combine)
  qed
qed

lemma bcast_dim_column:
  "i < max_rank shapes \<Longrightarrow>
   bcast_dim shapes (max_rank shapes) i = column (Some 1) (map rev shapes) (max_rank shapes - 1 - i)"
  unfolding bcast_dim_def by (rule foldl_bcast_step_column) (simp_all add: max_rank_ge)

lemma column_beyond:
  "\<forall>r \<in> set rs. length r \<le> j \<Longrightarrow> column (Some 1) rs j = Some 1"
  by (induction rs) (simp_all add: dim_from_right_def)

lemma np_broadcast_shape_spec:
  "np_broadcast_shape shapes =
     (case spec_broadcast shapes of Some b \<Rightarrow> Inr b | None \<Rightarrow> Inl BroadcastError)"
proof (cases "spec_broadcast shapes")
  case (Some c)
  let ?nd = "max_rank shapes"
  from Some have "broadcast_all (Some []) shapes = Some c" by (simp add: spec_broadcast_def)
  from broadcast_all_Some [OF this] have len: "length c = ?nd"
    and col: "\<And>j. column (Some (Suc 0)) (map rev shapes) j = Some (dim_from_right (rev c) j)"
    by simp_all
  have d: "bcast_dim shapes ?nd i = Some (c ! i)" if "i < ?nd" for i
  proof -
    have "bcast_dim shapes ?nd i = Some (dim_from_right (rev c) (?nd - 1 - i))"
      using that by (simp add: bcast_dim_column col)
    also have "dim_from_right (rev c) (?nd - 1 - i) = rev c ! (?nd - 1 - i)"
      using that len by (simp add: dim_from_right_def)
    also have "\<dots> = c ! i" using that len by (simp add: rev_nth)
    finally show ?thesis .
  qed
  have m: "map (bcast_dim shapes ?nd) [0..<?nd] = map Some c"
  proof (rule nth_equalityI)
    show "length (map (bcast_dim shapes ?nd) [0..<?nd]) = length (map Some c)" using len by simp
  next
    fix i
    assume "i < length (map (bcast_dim shapes ?nd) [0..<?nd])"
    then have "i < ?nd" by simp
    then show "map (bcast_dim shapes ?nd) [0..<?nd] ! i = map Some c ! i"
      using len by (simp add: d)
  qed
  have "None \<notin> set (map Some c)" by auto
  moreover have "map the (map Some c) = c" by (simp add: comp_def)
  ultimately show ?thesis using Some
    by (simp add: np_broadcast_shape_def Let_def m del: set_map map_map)
next
  case None
  let ?nd = "max_rank shapes"
  from None have "broadcast_all (Some []) shapes = None" by (simp add: spec_broadcast_def)
  from broadcast_all_fails [OF this] obtain j where j: "column (Some 1) (map rev shapes) j = None"
    by auto
  have "j < ?nd"
  proof (rule ccontr)
    assume "\<not> j < ?nd"
    then have "\<forall>r \<in> set (map rev shapes). length r \<le> j"
      using max_rank_ge [of _ shapes] by fastforce
    from column_beyond [OF this] j show False by simp
  qed
  then have i: "?nd - 1 - j < ?nd" and jj: "?nd - 1 - (?nd - 1 - j) = j" by arith+
  have "bcast_dim shapes ?nd (?nd - 1 - j) = None"
    using bcast_dim_column [OF i] j jj by simp
  then have "None \<in> set (map (bcast_dim shapes ?nd) [0..<?nd])"
    using i by (metis (no_types) atLeastLessThan_iff imageI list.set_map set_upt zero_le)
  then show ?thesis using None by (simp add: np_broadcast_shape_def Let_def)
qed

lemma core_pairs_Nil [simp]: "core_pairs [] icd = []" "core_pairs args [] = []"
  by (simp_all add: core_pairs_def)

lemma prefixes_Nil [simp]: "prefixes [] icd = []" "prefixes args [] = []"
  by (simp_all add: prefixes_def)

lemma pid_loop_error_kind:
  "pid_loop ds bas (zip args icd) = Inl e \<Longrightarrow> e \<noteq> BroadcastError"
proof (induction args icd arbitrary: ds bas rule: list_induct2')
  case (4 arg args cd icd)
  show ?case
  proof (cases "update_dim_sizes ds arg cd")
    case (Inl e')
    with 4(2) have e: "e' = e" by simp
    show ?thesis
    proof (cases "ndim arg < length cd")
      case True
      with Inl e show ?thesis by (auto simp: update_dim_sizes_low_rank)
    next
      case False
      with Inl e have "update_loop ds (zip cd (core_shape_of arg cd)) = Inl e"
        by (simp add: update_dim_sizes_walk)
      from update_loop_error [OF this] show ?thesis by auto
    qed
  next
    case (Inr ds1)
    with 4 show ?thesis by (simp add: Let_def)
  qed
qed simp_all

lemma bpair_rev_Nil2 [simp]: "bpair_rev a [] = Some a"
  by (cases a) simp_all

lemma bpair_rev_ones: "n \<le> length a \<Longrightarrow> bpair_rev a (replicate n (Suc 0)) = Some a"
proof (induction a arbitrary: n)
  case Nil
  then show ?case by simp
next
  case (Cons x a)
  then show ?case by (cases n) simp_all
qed

section \<open>The signature parser\<close>

subsection \<open>The matcher and the language of a pattern\<close>

lemma star_concat: "star L = {concat us | us. set us \<subseteq> L}"
proof (intro equalityI subsetI)
  fix w assume "w \<in> star L"
  then show "w \<in> {concat us | us. set us \<subseteq> L}"
  proof (induction rule: star.induct)
    case star_Nil
    have "[] = concat [] \<and> set ([] :: string list) \<subseteq> L" by simp
    then show ?case by blast
  next
    case (star_step u v)
    then obtain us where "v = concat us" "set us \<subseteq> L" by blast
    with star_step have "u @ v = concat (u # us) \<and> set (u # us) \<subseteq> L" by simp
    then show ?case by blast
  qed
next
  fix w assume "w \<in> {concat us | us. set us \<subseteq> L}"
  then obtain us where w: "w = concat us" and us: "set us \<subseteq> L" by blast
  from us have "concat us \<in> star L"
  proof (induction us)
    case Nil
    show ?case by (simp add: star_Nil)
  next
    case (Cons u us)
    then have ih: "concat us \<in> star L" and u: "u \<in> L" by simp_all
    show ?case
    proof (cases "u = []")
      case True
      with ih show ?thesis by simp
    next
      case False
      with u ih show ?thesis by (simp add: star_step)
    qed
  qed
  with w show "w \<in> star L" by simp
qed

lemma ends_Star_unfold:
  "set (ends (Star a) s) =
     insert s (\<Union>t \<in> {t \<in> set (ends a s). length t < length s}. set (ends (Star a) t))"
  by (subst ends.simps(5)) (auto simp del: ends.simps)

lemma ends_Star_set:
  assumes a: "\<And>s. set (ends a s) = rests a s"
  shows "set (ends (Star a) s) = rests (Star a) s"
proof (induction s rule: length_induct)
  case (1 s)
  show ?case
  proof (intro equalityI subsetI)
    fix t assume "t \<in> set (ends (Star a) s)"
    then consider "t = s"
      | t' where "t' \<in> set (ends a s)" "length t' < length s" "t \<in> set (ends (Star a) t')"
      by (subst (asm) ends_Star_unfold) blast
    then show "t \<in> rests (Star a) s"
    proof cases
      case 1
      then show ?thesis by (auto simp: rests_def star_Nil)
    next
      case 2
      from 2(1) a obtain u where u: "u \<in> lang a" "s = u @ t'" by (auto simp: rests_def)
      from 2(2) u have ne: "u \<noteq> []" by auto
      from 2(2,3) 1 have "t \<in> rests (Star a) t'" by blast
      then obtain v where v: "v \<in> star (lang a)" "t' = v @ t" by (auto simp: rests_def)
      from u ne v have "u @ v \<in> lang (Star a)" by (simp add: star_step)
      moreover have "s = (u @ v) @ t" using u v by simp
      ultimately have "\<exists>x \<in> lang (Star a). s = x @ t" by (rule bexI [rotated])
      then show ?thesis unfolding rests_def by (rule CollectI)
    qed
  next
    fix t assume "t \<in> rests (Star a) s"
    then obtain w where w: "w \<in> star (lang a)" "s = w @ t" by (auto simp: rests_def)
    from w(1) show "t \<in> set (ends (Star a) s)" using w(2)
    proof (cases rule: star.cases)
      case star_Nil
      with w show ?thesis by (subst ends_Star_unfold) (simp del: ends.simps)
    next
      case (star_step u v)
      let ?t' = "v @ t"
      from star_step w have s: "s = u @ ?t'" by simp
      with star_step have "?t' \<in> rests a s" by (auto simp: rests_def)
      then have m: "?t' \<in> set (ends a s)" by (simp add: a)
      from s star_step have lt: "length ?t' < length s" by simp
      from star_step have "t \<in> rests (Star a) ?t'" by (auto simp: rests_def)
      with 1 lt have "t \<in> set (ends (Star a) ?t')" by blast
      with m lt show ?thesis by (subst ends_Star_unfold) blast
    qed
  qed
qed

lemma ends_lang: "eos_free r \<Longrightarrow> set (ends r s) = rests r s"
proof (induction r arbitrary: s)
  case (Chr c)
  show ?case by (cases s) (auto simp: rests_def)
next
  case (Cls p)
  show ?case by (cases s) (auto simp: rests_def)
next
  case (Seq a b)
  then have a: "\<And>s. set (ends a s) = rests a s" and b: "\<And>s. set (ends b s) = rests b s"
    by simp_all
  show ?case
  proof (intro equalityI subsetI)
    fix t assume "t \<in> set (ends (Seq a b) s)"
    then obtain t' where "t' \<in> rests a s" "t \<in> rests b t'" using a b by auto
    then obtain u v where "u \<in> lang a" "s = u @ t'" "v \<in> lang b" "t' = v @ t"
      by (auto simp: rests_def)
    then have "u @ v \<in> lang (Seq a b) \<and> s = (u @ v) @ t" by auto
    then show "t \<in> rests (Seq a b) s" unfolding rests_def by blast
  next
    fix t assume "t \<in> rests (Seq a b) s"
    then obtain u v where uv: "u \<in> lang a" "v \<in> lang b" "s = (u @ v) @ t"
      by (auto simp: rests_def)
    then have "v @ t \<in> rests a s" "t \<in> rests b (v @ t)" by (auto simp: rests_def)
    then show "t \<in> set (ends (Seq a b) s)" using a b by auto
  qed
next
  case (Opt a)
  then have a: "\<And>s. set (ends a s) = rests a s" by simp
  show ?case by (auto simp: a rests_def)
next
  case (Star a)
  then have a: "\<And>s. set (ends a s) = rests a s" by simp
  then show ?case by (rule ends_Star_set)
next
  case Eos
  then show ?case by simp
qed

subsection \<open>The languages of the notebook's patterns\<close>

lemma join_Cons: "join sep (x # xs) = x @ concat (map ((@) sep) xs)"
  by (induction xs arbitrary: x) simp_all

lemma join_Cons_char: "join [c] (x # xs) = x @ concat (map ((#) c) xs)"
proof -
  have "(@) [c] = (#) c" by (rule ext) simp
  then show ?thesis by (simp add: join_Cons)
qed

lemma lang_Star_Cls: "lang (Star (Cls p)) = {n. \<forall>c \<in> set n. p c}"
proof (intro equalityI subsetI)
  fix n assume "n \<in> lang (Star (Cls p))"
  then obtain us where "n = concat us" "set us \<subseteq> {[x] | x. p x}"
    by (auto simp: star_concat)
  then show "n \<in> {n. \<forall>c \<in> set n. p c}" by auto
next
  fix n assume "n \<in> {n. \<forall>c \<in> set n. p c}"
  then have "set (map (\<lambda>c. [c]) n) \<subseteq> {[x] | x. p x}" by auto
  moreover have "n = concat (map (\<lambda>c. [c]) n)" by (induction n) simp_all
  ultimately show "n \<in> lang (Star (Cls p))" unfolding lang.simps star_concat by blast
qed

lemma lang_DIMENSION_NAME: "lang (DIMENSION_NAME uw) = {n. is_name uw n}"
proof (intro equalityI subsetI)
  fix n assume "n \<in> lang (DIMENSION_NAME uw)"
  then obtain x v where "n = [x] @ v" "word_char uw x" "v \<in> lang (Star (Cls (word_char uw)))"
    unfolding DIMENSION_NAME_def Plus_def by (auto simp del: lang.simps(5) simp: lang.simps(3))
  then show "n \<in> {n. is_name uw n}" by (simp add: lang_Star_Cls is_name_def del: lang.simps(5))
next
  fix n assume "n \<in> {n. is_name uw n}"
  then obtain c n' where n: "n = c # n'" "word_char uw c" "\<forall>x \<in> set n'. word_char uw x"
    by (cases n) (auto simp: is_name_def)
  then have "[c] \<in> lang (Cls (word_char uw))" "n' \<in> lang (Star (Cls (word_char uw)))"
    by (simp_all add: lang_Star_Cls del: lang.simps(5))
  then have "[c] @ n' \<in> lang (Seq (Cls (word_char uw)) (Star (Cls (word_char uw))))"
    unfolding lang.simps(3) by blast
  with n show "n \<in> lang (DIMENSION_NAME uw)" by (simp add: DIMENSION_NAME_def Plus_def)
qed

lemma lang_Star_sep:
  "lang (Star (Seq (Chr c) r)) = {concat (map ((#) c) xs) | xs. set xs \<subseteq> lang r}"
proof (intro equalityI subsetI)
  fix w assume "w \<in> lang (Star (Seq (Chr c) r))"
  then obtain us where w: "w = concat us" and us: "set us \<subseteq> {c # x | x. x \<in> lang r}"
    by (auto simp: star_concat)
  from us have "\<exists>xs. us = map ((#) c) xs \<and> set xs \<subseteq> lang r"
  proof (induction us)
    case Nil
    then show ?case by simp
  next
    case (Cons u us)
    then obtain xs x where "us = map ((#) c) xs" "set xs \<subseteq> lang r" "u = c # x" "x \<in> lang r"
      by auto
    then have "u # us = map ((#) c) (x # xs) \<and> set (x # xs) \<subseteq> lang r" by simp
    then show ?case by (rule exI)
  qed
  with w show "w \<in> {concat (map ((#) c) xs) | xs. set xs \<subseteq> lang r}" by blast
next
  fix w assume "w \<in> {concat (map ((#) c) xs) | xs. set xs \<subseteq> lang r}"
  then obtain xs where w: "w = concat (map ((#) c) xs)" and xs: "set xs \<subseteq> lang r" by blast
  from xs have "set (map ((#) c) xs) \<subseteq> {c # x | x. x \<in> lang r}" by auto
  with w show "w \<in> lang (Star (Seq (Chr c) r))"
    unfolding lang.simps star_concat by (auto simp del: set_map)
qed

lemma lang_sep_list:
  "lang (Seq r (Star (Seq (Chr c) r))) = {join [c] xs | xs. xs \<noteq> [] \<and> set xs \<subseteq> lang r}"
proof (intro equalityI subsetI)
  fix w assume "w \<in> lang (Seq r (Star (Seq (Chr c) r)))"
  then obtain x v where "w = x @ v" "x \<in> lang r" "v \<in> lang (Star (Seq (Chr c) r))"
    by (auto simp del: lang.simps(5) simp: lang.simps(3))
  then obtain xs where "w = x @ concat (map ((#) c) xs)" "x \<in> lang r" "set xs \<subseteq> lang r"
    unfolding lang_Star_sep by blast
  then have "w = join [c] (x # xs) \<and> x # xs \<noteq> [] \<and> set (x # xs) \<subseteq> lang r"
    by (simp add: join_Cons_char)
  then show "w \<in> {join [c] xs | xs. xs \<noteq> [] \<and> set xs \<subseteq> lang r}" by blast
next
  fix w assume "w \<in> {join [c] xs | xs. xs \<noteq> [] \<and> set xs \<subseteq> lang r}"
  then obtain x xs where w: "w = join [c] (x # xs)" and x: "x \<in> lang r" and xs: "set xs \<subseteq> lang r"
    by (auto simp: neq_Nil_conv)
  from xs have "concat (map ((#) c) xs) \<in> lang (Star (Seq (Chr c) r))"
    unfolding lang_Star_sep by blast
  with x have "x @ concat (map ((#) c) xs) \<in> lang (Seq r (Star (Seq (Chr c) r)))"
    unfolding lang.simps(3) by blast
  with w show "w \<in> lang (Seq r (Star (Seq (Chr c) r)))" by (simp add: join_Cons_char)
qed

lemma lang_CORE_DIMENSION_LIST:
  "lang (CORE_DIMENSION_LIST uw) = {join '','' g | g. group_ok uw g}"
proof -
  have "lang (CORE_DIMENSION_LIST uw)
          = insert [] {join '','' g | g. g \<noteq> [] \<and> set g \<subseteq> lang (DIMENSION_NAME uw)}"
    unfolding CORE_DIMENSION_LIST_def lang.simps(4) lang_sep_list ..
  also have "\<dots> = {join '','' g | g. group_ok uw g}"
  proof (intro equalityI subsetI)
    fix w assume "w \<in> insert [] {join '','' g | g. g \<noteq> [] \<and> set g \<subseteq> lang (DIMENSION_NAME uw)}"
    then consider "w = []" | g where "w = join '','' g" "set g \<subseteq> lang (DIMENSION_NAME uw)"
      by blast
    then show "w \<in> {join '','' g | g. group_ok uw g}"
    proof cases
      case 1
      then have "w = join '','' [] \<and> group_ok uw []" by (simp add: group_ok_def)
      then show ?thesis by blast
    next
      case 2
      then have "group_ok uw g" by (auto simp: group_ok_def lang_DIMENSION_NAME)
      with 2 show ?thesis by blast
    qed
  next
    fix w assume "w \<in> {join '','' g | g. group_ok uw g}"
    then obtain g where g: "w = join '','' g" "group_ok uw g" by blast
    show "w \<in> insert [] {join '','' g | g. g \<noteq> [] \<and> set g \<subseteq> lang (DIMENSION_NAME uw)}"
    proof (cases "g = []")
      case True
      with g show ?thesis by simp
    next
      case False
      moreover from g have "set g \<subseteq> lang (DIMENSION_NAME uw)"
        by (auto simp: group_ok_def lang_DIMENSION_NAME)
      ultimately show ?thesis using g by blast
    qed
  qed
  finally show ?thesis .
qed

lemma lang_ARGUMENT: "lang (ARGUMENT uw) = {render_group g | g. group_ok uw g}"
proof (intro equalityI subsetI)
  fix w assume "w \<in> lang (ARGUMENT uw)"
  then obtain g where "w = ''('' @ join '','' g @ '')''" "group_ok uw g"
    unfolding ARGUMENT_def lang.simps(1,3) lang_CORE_DIMENSION_LIST by blast
  then show "w \<in> {render_group g | g. group_ok uw g}" unfolding render_group_def by blast
next
  fix w assume "w \<in> {render_group g | g. group_ok uw g}"
  then obtain g where "w = ''('' @ join '','' g @ '')''" "group_ok uw g"
    unfolding render_group_def by blast
  then show "w \<in> lang (ARGUMENT uw)"
    unfolding ARGUMENT_def lang.simps(1,3) lang_CORE_DIMENSION_LIST by blast
qed

lemma lang_ARGUMENT_LIST: "lang (ARGUMENT_LIST uw) = {render_groups gs | gs. groups_ok uw gs}"
proof -
  have "lang (ARGUMENT_LIST uw) = {join '','' xs | xs. xs \<noteq> [] \<and> set xs \<subseteq> lang (ARGUMENT uw)}"
    unfolding ARGUMENT_LIST_def lang_sep_list ..
  also have "\<dots> = {render_groups gs | gs. groups_ok uw gs}"
  proof (intro equalityI subsetI)
    fix w assume "w \<in> {join '','' xs | xs. xs \<noteq> [] \<and> set xs \<subseteq> lang (ARGUMENT uw)}"
    then obtain xs where w: "w = join '','' xs" and ne: "xs \<noteq> []"
      and xs: "set xs \<subseteq> {render_group g | g. group_ok uw g}"
      unfolding lang_ARGUMENT by blast
    from xs have "\<exists>gs. xs = map render_group gs \<and> (\<forall>g \<in> set gs. group_ok uw g)"
    proof (induction xs)
      case Nil
      then show ?case by simp
    next
      case (Cons x xs)
      then obtain gs g where "xs = map render_group gs" "\<forall>g \<in> set gs. group_ok uw g"
        "x = render_group g" "group_ok uw g" by auto
      then have "x # xs = map render_group (g # gs) \<and> (\<forall>g \<in> set (g # gs). group_ok uw g)" by simp
      then show ?case by (rule exI)
    qed
    then obtain gs where "xs = map render_group gs" "\<forall>g \<in> set gs. group_ok uw g" by blast
    with w ne have "w = render_groups gs \<and> groups_ok uw gs"
      by (auto simp: render_groups_def groups_ok_def)
    then show "w \<in> {render_groups gs | gs. groups_ok uw gs}" by blast
  next
    fix w assume "w \<in> {render_groups gs | gs. groups_ok uw gs}"
    then obtain gs where "w = render_groups gs" "groups_ok uw gs" by blast
    then have "w = join '','' (map render_group gs) \<and> map render_group gs \<noteq> []
        \<and> set (map render_group gs) \<subseteq> lang (ARGUMENT uw)"
      unfolding lang_ARGUMENT by (auto simp: render_groups_def groups_ok_def)
    then show "w \<in> {join '','' xs | xs. xs \<noteq> [] \<and> set xs \<subseteq> lang (ARGUMENT uw)}" by blast
  qed
  finally show ?thesis .
qed

subsection \<open>Matching a signature\<close>

lemma eos_free_ARGUMENT_LIST [simp]: "eos_free (ARGUMENT_LIST uw)"
  by (simp add: ARGUMENT_LIST_def ARGUMENT_def CORE_DIMENSION_LIST_def DIMENSION_NAME_def Plus_def)

lemma eos_free_ARGUMENT [simp]: "eos_free (ARGUMENT uw)"
  by (simp add: ARGUMENT_def CORE_DIMENSION_LIST_def DIMENSION_NAME_def Plus_def)

lemma rests_ARGUMENT_LIST:
  "rests (ARGUMENT_LIST uw) s = {t. \<exists>gs. groups_ok uw gs \<and> s = render_groups gs @ t}"
  unfolding rests_def lang_ARGUMENT_LIST by blast

lemma rests_ARGUMENT:
  "rests (ARGUMENT uw) s = {t. \<exists>g. group_ok uw g \<and> s = render_group g @ t}"
  unfolding rests_def lang_ARGUMENT by blast

lemma set_ends_Seq: "set (ends (Seq a b) s) = (\<Union>t \<in> set (ends a s). set (ends b t))"
  by simp

lemma set_ends_Chr: "set (ends (Chr c) s) = {t. s = c # t}"
  by (cases s) auto

lemma set_ends_Eos: "set (ends Eos s) = {t. t = s \<and> (s = [] \<or> s = [CHR 0x0A])}"
  by auto

lemma in_ends_Seq: "x \<in> set (ends (Seq a b) s) \<longleftrightarrow> (\<exists>t \<in> set (ends a s). x \<in> set (ends b t))"
  by simp

lemma in_ends_Chr: "t \<in> set (ends (Chr c) s) \<longleftrightarrow> s = c # t"
  by (cases s) auto

lemma in_ends_Eos: "x \<in> set (ends Eos t) \<longleftrightarrow> x = t \<and> (t = [] \<or> t = [CHR 0x0A])"
  by auto

lemma in_ends_ARGUMENT_LIST:
  "t \<in> set (ends (ARGUMENT_LIST uw) s) \<longleftrightarrow> (\<exists>gs. groups_ok uw gs \<and> s = render_groups gs @ t)"
  by (simp add: ends_lang rests_ARGUMENT_LIST del: ends.simps)

lemma set_ends_SIGNATURE:
  "set (ends (SIGNATURE uw) s) =
     {nl. (nl = [] \<or> nl = [CHR 0x0A]) \<and>
          (\<exists>ins outs. groups_ok uw ins \<and> groups_ok uw outs \<and> s = render_signature ins outs @ nl)}"
proof (intro equalityI subsetI)
  fix x assume "x \<in> set (ends (SIGNATURE uw) s)"
  then obtain t1 t2 t3 t4 where t: "t1 \<in> set (ends (ARGUMENT_LIST uw) s)"
    "t2 \<in> set (ends (Chr CHR ''-'') t1)" "t3 \<in> set (ends (Chr CHR ''>'') t2)"
    "t4 \<in> set (ends (ARGUMENT_LIST uw) t3)" "x \<in> set (ends Eos t4)"
    unfolding SIGNATURE_def in_ends_Seq by blast
  from t(1) obtain ins where ins: "groups_ok uw ins" "s = render_groups ins @ t1"
    unfolding in_ends_ARGUMENT_LIST by blast
  from t(4) obtain outs where outs: "groups_ok uw outs" "t3 = render_groups outs @ t4"
    unfolding in_ends_ARGUMENT_LIST by blast
  from t(2,3) have a: "t1 = ''->'' @ t3" unfolding in_ends_Chr by simp
  from t(5) have x: "x = t4" "x = [] \<or> x = [CHR 0x0A]" unfolding in_ends_Eos by simp_all
  have "s = render_signature ins outs @ x"
    using ins outs a x by (simp add: render_signature_def)
  with ins outs x show "x \<in> {nl. (nl = [] \<or> nl = [CHR 0x0A]) \<and>
          (\<exists>ins outs. groups_ok uw ins \<and> groups_ok uw outs \<and> s = render_signature ins outs @ nl)}"
    by blast
next
  fix x assume "x \<in> {nl. (nl = [] \<or> nl = [CHR 0x0A]) \<and>
          (\<exists>ins outs. groups_ok uw ins \<and> groups_ok uw outs \<and> s = render_signature ins outs @ nl)}"
  then obtain ins outs where x: "x = [] \<or> x = [CHR 0x0A]" and io: "groups_ok uw ins" "groups_ok uw outs"
    and s: "s = render_signature ins outs @ x" by blast
  let ?t3 = "render_groups outs @ x"
  let ?t2 = "CHR ''>'' # ?t3"
  let ?t1 = "CHR ''-'' # ?t2"
  have 1: "?t1 \<in> set (ends (ARGUMENT_LIST uw) s)"
    unfolding in_ends_ARGUMENT_LIST using io s by (auto simp: render_signature_def)
  have 2: "?t2 \<in> set (ends (Chr CHR ''-'') ?t1)" unfolding in_ends_Chr ..
  have 3: "?t3 \<in> set (ends (Chr CHR ''>'') ?t2)" unfolding in_ends_Chr ..
  have 4: "x \<in> set (ends (ARGUMENT_LIST uw) ?t3)"
    unfolding in_ends_ARGUMENT_LIST using io by blast
  have 5: "x \<in> set (ends Eos x)" unfolding in_ends_Eos using x by simp
  show "x \<in> set (ends (SIGNATURE uw) s)"
    unfolding SIGNATURE_def in_ends_Seq using 1 2 3 4 5 by blast
qed

lemma re_match_SIGNATURE:
  "re_match (SIGNATURE uw) s \<longleftrightarrow>
     (\<exists>ins outs nl. groups_ok uw ins \<and> groups_ok uw outs \<and> (nl = [] \<or> nl = [CHR 0x0A])
         \<and> s = render_signature ins outs @ nl)"
proof -
  have "re_match (SIGNATURE uw) s \<longleftrightarrow> (\<exists>x. x \<in> set (ends (SIGNATURE uw) s))"
    unfolding re_match_def by (cases "ends (SIGNATURE uw) s") (simp_all del: ends.simps, blast)
  also have "\<dots> \<longleftrightarrow> (\<exists>nl. (nl = [] \<or> nl = [CHR 0x0A]) \<and>
          (\<exists>ins outs. groups_ok uw ins \<and> groups_ok uw outs \<and> s = render_signature ins outs @ nl))"
    unfolding set_ends_SIGNATURE mem_Collect_eq ..
  also have "\<dots> \<longleftrightarrow> (\<exists>ins outs nl. groups_ok uw ins \<and> groups_ok uw outs \<and> (nl = [] \<or> nl = [CHR 0x0A])
         \<and> s = render_signature ins outs @ nl)"
    by blast
  finally show ?thesis .
qed

subsection \<open>Characters\<close>

lemma not_word_char [simp]:
  "\<not> word_char uw CHR ''(''" "\<not> word_char uw CHR '')''" "\<not> word_char uw CHR '',''"
  "\<not> word_char uw CHR ''-''" "\<not> word_char uw CHR ''>''" "\<not> word_char uw (CHR 0x0A)"
  by (simp_all add: word_char_def ascii_word_def)

lemma set_join: "set (join sep xs) \<subseteq> set sep \<union> \<Union> (set ` set xs)"
  by (induction sep xs rule: join.induct) auto

lemma set_name: "is_name uw n \<Longrightarrow> set n \<subseteq> {c. word_char uw c}"
  by (auto simp: is_name_def)

lemma set_render_group:
  assumes "group_ok uw g"
  shows "set (render_group g) \<subseteq> {CHR ''('', CHR '')'', CHR '',''} \<union> {c. word_char uw c}"
proof -
  have "\<Union> (set ` set g) \<subseteq> {c. word_char uw c}"
    using assms set_name by (fastforce simp: group_ok_def)
  with set_join [of "'',''" g] show ?thesis by (auto simp: render_group_def)
qed

lemma set_render_groups:
  assumes "groups_ok uw gs"
  shows "set (render_groups gs) \<subseteq> {CHR ''('', CHR '')'', CHR '',''} \<union> {c. word_char uw c}"
proof -
  have "\<Union> (set ` set (map render_group gs)) \<subseteq> {CHR ''('', CHR '')'', CHR '',''} \<union> {c. word_char uw c}"
    using assms set_render_group by (fastforce simp: groups_ok_def)
  with set_join [of "'',''" "map render_group gs"] show ?thesis
    unfolding render_groups_def by auto
qed

lemma no_dash_render_groups: "groups_ok uw gs \<Longrightarrow> CHR ''-'' \<notin> set (render_groups gs)"
  using set_render_groups [of uw gs] by auto

subsection \<open>Splitting at the arrow\<close>

lemma split_arrow_no_dash: "CHR ''-'' \<notin> set v \<Longrightarrow> split_arrow v = [v]"
  by (induction v) auto

lemma split_arrow_at:
  "CHR ''-'' \<notin> set u \<Longrightarrow> split_arrow (u @ ''->'' @ v) = u # split_arrow v"
  by (induction u) auto

lemma split_arrow_signature:
  assumes "groups_ok uw ins" and "groups_ok uw outs" and "nl = [] \<or> nl = [CHR 0x0A]"
  shows "split_arrow (render_signature ins outs @ nl) = [render_groups ins, render_groups outs @ nl]"
proof -
  have "CHR ''-'' \<notin> set (render_groups outs @ nl)"
    using assms no_dash_render_groups [of uw outs] by auto
  then have "split_arrow (render_groups outs @ nl) = [render_groups outs @ nl]"
    by (rule split_arrow_no_dash)
  then show ?thesis
    using assms(1) split_arrow_at [of "render_groups ins" "render_groups outs @ nl"]
    by (simp add: render_signature_def no_dash_render_groups)
qed

subsection \<open>Finding all matches\<close>

lemma findall_skip: "ends r (c # s) = [] \<Longrightarrow> findall r (c # s) = findall r s"
  by (subst findall.simps) (simp del: ends.simps)

lemma findall_Nil: "ends r [] = [] \<Longrightarrow> findall r [] = []"
  by (subst findall.simps) (simp del: ends.simps)

lemma findall_take:
  "ends r (u @ t) = t # ts \<Longrightarrow> u \<noteq> [] \<Longrightarrow> findall r (u @ t) = u # findall r t"
  by (subst findall.simps) (simp del: ends.simps)

subsection \<open>Arguments\<close>

lemma ends_ARGUMENT_other: "c \<noteq> CHR ''('' \<Longrightarrow> ends (ARGUMENT uw) (c # s) = []"
  by (simp add: ARGUMENT_def)

lemma ends_ARGUMENT_Nil: "ends (ARGUMENT uw) [] = []"
  by (simp add: ARGUMENT_def)

lemma in_ends_ARGUMENT:
  "t \<in> set (ends (ARGUMENT uw) s) \<longleftrightarrow> (\<exists>g. group_ok uw g \<and> s = render_group g @ t)"
  by (simp add: ends_lang rests_ARGUMENT del: ends.simps)

lemma first_occurrence_unique:
  "x \<notin> set a \<Longrightarrow> x \<notin> set a' \<Longrightarrow> a @ x # r = a' @ x # r' \<Longrightarrow> a = a' \<and> r = r'"
proof (induction a arbitrary: a')
  case Nil
  then show ?case by (cases a') auto
next
  case (Cons y a)
  then show ?case by (cases a') auto
qed

lemma render_group_unique:
  assumes "group_ok uw g" and "group_ok uw g'" and "render_group g @ t = render_group g' @ t'"
  shows "t = t'"
proof -
  let ?b = "CHR ''('' # join '','' g" and ?b' = "CHR ''('' # join '','' g'"
  have b: "CHR '')'' \<notin> set ?b"
    using set_join [of "'',''" g] assms(1) set_name by (fastforce simp: group_ok_def)
  have b': "CHR '')'' \<notin> set ?b'"
    using set_join [of "'',''" g'] assms(2) set_name by (fastforce simp: group_ok_def)
  from assms(3) have eq: "?b @ CHR '')'' # t = ?b' @ CHR '')'' # t'"
    by (simp add: render_group_def)
  from first_occurrence_unique [OF b b' eq] show ?thesis by blast
qed

lemma ends_ARGUMENT_group:
  assumes "group_ok uw g"
  shows "\<exists>ts. ends (ARGUMENT uw) (render_group g @ rest) = rest # ts"
proof -
  let ?s = "render_group g @ rest"
  have "rest \<in> set (ends (ARGUMENT uw) ?s)" unfolding in_ends_ARGUMENT using assms by blast
  then obtain t ts where e: "ends (ARGUMENT uw) ?s = t # ts"
    by (cases "ends (ARGUMENT uw) ?s") simp_all
  then have "t \<in> set (ends (ARGUMENT uw) ?s)" by simp
  then obtain g' where "group_ok uw g'" "?s = render_group g' @ t"
    unfolding in_ends_ARGUMENT by blast
  with assms have "rest = t" by (rule render_group_unique)
  with e show ?thesis by blast
qed

lemma render_group_nonempty: "render_group g \<noteq> []"
  by (simp add: render_group_def)

lemma findall_ARGUMENT_group:
  assumes "group_ok uw g"
  shows "findall (ARGUMENT uw) (render_group g @ rest) = render_group g # findall (ARGUMENT uw) rest"
proof -
  from ends_ARGUMENT_group [OF assms] obtain ts
    where "ends (ARGUMENT uw) (render_group g @ rest) = rest # ts" by blast
  then show ?thesis using render_group_nonempty by (rule findall_take)
qed

lemma findall_ARGUMENT_newline:
  "nl = [] \<or> nl = [CHR 0x0A] \<Longrightarrow> findall (ARGUMENT uw) nl = []"
  by (auto simp: findall_skip findall_Nil ends_ARGUMENT_other ends_ARGUMENT_Nil)

lemma findall_ARGUMENT_tail:
  assumes "\<forall>g \<in> set gs. group_ok uw g" and "nl = [] \<or> nl = [CHR 0x0A]"
  shows "findall (ARGUMENT uw) (concat (map ((#) CHR '','') (map render_group gs)) @ nl)
           = map render_group gs"
  using assms(1)
proof (induction gs)
  case Nil
  then show ?case using assms(2) by (simp add: findall_ARGUMENT_newline)
next
  case (Cons g gs)
  let ?rest = "concat (map ((#) CHR '','') (map render_group gs)) @ nl"
  have "findall (ARGUMENT uw) (CHR '','' # render_group g @ ?rest)
          = findall (ARGUMENT uw) (render_group g @ ?rest)"
    by (rule findall_skip) (simp add: ends_ARGUMENT_other)
  also have "\<dots> = render_group g # findall (ARGUMENT uw) ?rest"
    using Cons.prems by (simp add: findall_ARGUMENT_group)
  finally show ?case using Cons by simp
qed

lemma findall_ARGUMENT_groups:
  assumes "groups_ok uw gs" and "nl = [] \<or> nl = [CHR 0x0A]"
  shows "findall (ARGUMENT uw) (render_groups gs @ nl) = map render_group gs"
proof -
  from assms(1) obtain g gs' where gs: "gs = g # gs'" and g: "group_ok uw g"
    and gs': "\<forall>g \<in> set gs'. group_ok uw g"
    by (cases gs) (auto simp: groups_ok_def)
  let ?rest = "concat (map ((#) CHR '','') (map render_group gs')) @ nl"
  have "render_groups gs @ nl = render_group g @ ?rest"
    by (simp add: gs render_groups_def join_Cons_char)
  then have "findall (ARGUMENT uw) (render_groups gs @ nl) = findall (ARGUMENT uw) (render_group g @ ?rest)"
    by (rule arg_cong)
  also have "\<dots> = render_group g # findall (ARGUMENT uw) ?rest"
    using g by (rule findall_ARGUMENT_group)
  also have "findall (ARGUMENT uw) ?rest = map render_group gs'"
    using gs' assms(2) by (rule findall_ARGUMENT_tail)
  finally show ?thesis by (simp add: gs)
qed

subsection \<open>Names\<close>

lemma ends_NAME_other: "\<not> word_char uw c \<Longrightarrow> ends (DIMENSION_NAME uw) (c # s) = []"
  by (simp add: DIMENSION_NAME_def Plus_def)

lemma ends_NAME_Nil: "ends (DIMENSION_NAME uw) [] = []"
  by (simp add: DIMENSION_NAME_def Plus_def)

lemma ends_Star_Cls_greedy:
  assumes "\<forall>c \<in> set n. p c" and "rest = [] \<or> \<not> p (hd rest)"
  shows "\<exists>ts. ends (Star (Cls p)) (n @ rest) = rest # ts"
  using assms(1)
proof (induction n)
  case Nil
  have "ends (Cls p) rest = []" using assms(2) by (cases rest) auto
  then have "ends (Star (Cls p)) rest = [rest]"
    by (subst ends.simps(5)) (simp del: ends.simps)
  then show ?case by (simp del: ends.simps)
next
  case (Cons c n)
  from Cons.prems have "\<forall>c \<in> set n. p c" by simp
  from Cons.IH [OF this] obtain ts where ih: "ends (Star (Cls p)) (n @ rest) = rest # ts" by blast
  from Cons.prems have "ends (Cls p) (c # n @ rest) = [n @ rest]" by simp
  then have "ends (Star (Cls p)) (c # n @ rest) = ends (Star (Cls p)) (n @ rest) @ [c # n @ rest]"
    by (subst ends.simps(5)) (simp del: ends.simps)
  with ih show ?case by (simp del: ends.simps)
qed

lemma ends_NAME_greedy:
  assumes "is_name uw n" and "rest = [] \<or> \<not> word_char uw (hd rest)"
  shows "\<exists>ts. ends (DIMENSION_NAME uw) (n @ rest) = rest # ts"
proof -
  from assms(1) obtain c n' where n: "n = c # n'" "word_char uw c" "\<forall>x \<in> set n'. word_char uw x"
    by (cases n) (auto simp: is_name_def)
  from ends_Star_Cls_greedy [OF n(3) assms(2)] obtain ts
    where "ends (Star (Cls (word_char uw))) (n' @ rest) = rest # ts" by blast
  with n show ?thesis by (simp add: DIMENSION_NAME_def Plus_def del: ends.simps(5))
qed

lemma findall_NAME_name:
  assumes "is_name uw n" and "rest = [] \<or> \<not> word_char uw (hd rest)"
  shows "findall (DIMENSION_NAME uw) (n @ rest) = n # findall (DIMENSION_NAME uw) rest"
proof -
  from ends_NAME_greedy [OF assms] obtain ts
    where "ends (DIMENSION_NAME uw) (n @ rest) = rest # ts" by blast
  moreover from assms(1) have "n \<noteq> []" by (simp add: is_name_def)
  ultimately show ?thesis by (rule findall_take)
qed

lemma findall_NAME_close: "findall (DIMENSION_NAME uw) '')'' = []"
  by (simp add: findall_skip findall_Nil ends_NAME_other ends_NAME_Nil)

lemma findall_NAME_tail:
  assumes "\<forall>n \<in> set ns. is_name uw n"
  shows "findall (DIMENSION_NAME uw) (concat (map ((#) CHR '','') ns) @ '')'') = ns"
  using assms
proof (induction ns)
  case Nil
  then show ?case by (simp add: findall_NAME_close)
next
  case (Cons n ns)
  let ?rest = "concat (map ((#) CHR '','') ns) @ '')''"
  have r: "?rest = [] \<or> \<not> word_char uw (hd ?rest)" by (cases ns) simp_all
  have "findall (DIMENSION_NAME uw) (CHR '','' # n @ ?rest) = findall (DIMENSION_NAME uw) (n @ ?rest)"
    by (rule findall_skip) (simp add: ends_NAME_other)
  also have "\<dots> = n # findall (DIMENSION_NAME uw) ?rest"
    using Cons.prems r by (simp add: findall_NAME_name del: append_assoc)
  finally show ?case using Cons by simp
qed

lemma findall_NAME_group:
  assumes "group_ok uw g"
  shows "findall (DIMENSION_NAME uw) (render_group g) = g"
proof (cases g)
  case Nil
  have "findall (DIMENSION_NAME uw) (CHR ''('' # '')'') = findall (DIMENSION_NAME uw) '')''"
    by (rule findall_skip) (simp add: ends_NAME_other)
  with Nil show ?thesis by (simp add: render_group_def findall_NAME_close)
next
  case (Cons n ns)
  with assms have n: "is_name uw n" and ns: "\<forall>n \<in> set ns. is_name uw n"
    by (simp_all add: group_ok_def)
  let ?rest = "concat (map ((#) CHR '','') ns) @ '')''"
  have r: "?rest = [] \<or> \<not> word_char uw (hd ?rest)" by (cases ns) simp_all
  have "render_group g = CHR ''('' # n @ ?rest"
    by (simp add: Cons render_group_def join_Cons_char)
  moreover have "findall (DIMENSION_NAME uw) (CHR ''('' # n @ ?rest) = findall (DIMENSION_NAME uw) (n @ ?rest)"
    by (rule findall_skip) (simp add: ends_NAME_other)
  moreover have "findall (DIMENSION_NAME uw) (n @ ?rest) = n # findall (DIMENSION_NAME uw) ?rest"
    using n r by (rule findall_NAME_name)
  ultimately show ?thesis using ns Cons by (simp add: findall_NAME_tail)
qed

subsection \<open>The parser\<close>

lemma parse_rendered:
  assumes "groups_ok uw ins" and "groups_ok uw outs" and "nl = [] \<or> nl = [CHR 0x0A]"
  shows "parse_gufunc_signature uw (render_signature ins outs @ nl) = Inr [ins, outs]"
proof -
  have m: "re_match (SIGNATURE uw) (render_signature ins outs @ nl)"
    unfolding re_match_SIGNATURE using assms by blast
  have g: "map (findall (DIMENSION_NAME uw)) (map render_group gs) = gs" if "groups_ok uw gs" for gs
    using that by (simp add: groups_ok_def findall_NAME_group map_idI)
  have i: "findall (ARGUMENT uw) (render_groups ins) = map render_group ins"
    using findall_ARGUMENT_groups [OF assms(1), of "[]"] by simp
  have o: "findall (ARGUMENT uw) (render_groups outs @ nl) = map render_group outs"
    using assms(2,3) by (rule findall_ARGUMENT_groups)
  show ?thesis
    using m g [OF assms(1)] g [OF assms(2)]
    by (simp add: parse_gufunc_signature_def split_arrow_signature [OF assms] i o)
qed

lemma parse_gufunc_signature_iff:
  "parse_gufunc_signature uw s = Inr sides \<longleftrightarrow>
     (\<exists>ins outs nl. groups_ok uw ins \<and> groups_ok uw outs \<and> (nl = [] \<or> nl = [CHR 0x0A])
         \<and> s = render_signature ins outs @ nl \<and> sides = [ins, outs])"
proof
  assume h: "parse_gufunc_signature uw s = Inr sides"
  then have "re_match (SIGNATURE uw) s"
    by (auto simp: parse_gufunc_signature_def split: if_splits)
  then obtain ins outs nl where io: "groups_ok uw ins" "groups_ok uw outs" "nl = [] \<or> nl = [CHR 0x0A]"
    and s: "s = render_signature ins outs @ nl"
    unfolding re_match_SIGNATURE by blast
  from parse_rendered [OF io] h s have "sides = [ins, outs]" by simp
  with io s show "\<exists>ins outs nl. groups_ok uw ins \<and> groups_ok uw outs \<and> (nl = [] \<or> nl = [CHR 0x0A])
         \<and> s = render_signature ins outs @ nl \<and> sides = [ins, outs]" by blast
next
  assume "\<exists>ins outs nl. groups_ok uw ins \<and> groups_ok uw outs \<and> (nl = [] \<or> nl = [CHR 0x0A])
         \<and> s = render_signature ins outs @ nl \<and> sides = [ins, outs]"
  then show "parse_gufunc_signature uw s = Inr sides" using parse_rendered by blast
qed

lemma parse_gufunc_signature_error:
  "parse_gufunc_signature uw s = Inl e \<Longrightarrow> e = InvalidSignature s"
  by (auto simp: parse_gufunc_signature_def split: if_splits)

subsection \<open>The grammar as the specification words it\<close>

lemma ascii_word_not_digit7: "ascii_word c \<Longrightarrow> \<not> digit7 c"
  by (auto simp: ascii_word_def)

lemma grammar_name_is_name: "grammar_name n \<Longrightarrow> is_name uw n"
  by (auto simp: grammar_name_def is_name_def word_char_def ascii_word_not_digit7)

lemma in_grammar_groups_ok:
  "in_grammar s \<Longrightarrow> \<exists>ins outs. groups_ok uw ins \<and> groups_ok uw outs \<and> s = render_signature ins outs"
  unfolding in_grammar_def groups_ok_def group_ok_def
  by (auto intro!: grammar_name_is_name)

lemma set_render_signature:
  assumes "groups_ok uw ins" and "groups_ok uw outs"
  shows "set (render_signature ins outs)
           \<subseteq> {CHR ''('', CHR '')'', CHR '','', CHR ''-'', CHR ''>''} \<union> {c. word_char uw c}"
  using set_render_groups [OF assms(1)] set_render_groups [OF assms(2)]
  by (auto simp: render_signature_def)

lemma in_grammar_no_newline: "in_grammar s \<Longrightarrow> CHR 0x0A \<notin> set s"
proof
  assume "in_grammar s" and n: "CHR 0x0A \<in> set s"
  then obtain ins outs where "groups_ok ascii_only ins" "groups_ok ascii_only outs"
    "s = render_signature ins outs"
    using in_grammar_groups_ok [of s ascii_only] by blast
  with set_render_signature [of ascii_only ins outs] n show False by auto
qed

lemma vectorize_rendered:
  assumes "groups_ok uw ins" and "groups_ok uw outs" and "nl = [] \<or> nl = [CHR 0x0A]"
  shows "vectorize uw (render_signature ins outs @ nl) = Inr (wrapper ins outs)"
  by (simp add: vectorize_def parse_rendered [OF assms])

lemma vectorize_fails_iff:
  "(\<exists>e. vectorize uw s = Inl e) \<longleftrightarrow>
     \<not> (\<exists>ins outs nl. groups_ok uw ins \<and> groups_ok uw outs \<and> (nl = [] \<or> nl = [CHR 0x0A])
           \<and> s = render_signature ins outs @ nl)"
proof (cases "parse_gufunc_signature uw s")
  case (Inl e)
  then have "\<not> (\<exists>sides. parse_gufunc_signature uw s = Inr sides)" by simp
  then have "\<not> (\<exists>ins outs nl. groups_ok uw ins \<and> groups_ok uw outs \<and> (nl = [] \<or> nl = [CHR 0x0A])
           \<and> s = render_signature ins outs @ nl)"
    unfolding parse_gufunc_signature_iff by blast
  moreover from Inl have "vectorize uw s = Inl e" by (simp add: vectorize_def)
  ultimately show ?thesis by blast
next
  case (Inr sides)
  then obtain ins outs nl where io: "groups_ok uw ins" "groups_ok uw outs" "nl = [] \<or> nl = [CHR 0x0A]"
    "s = render_signature ins outs @ nl"
    unfolding parse_gufunc_signature_iff by blast
  then show ?thesis by (auto simp: vectorize_rendered)
qed

lemma vectorize_error:
  "vectorize uw s = Inl e \<Longrightarrow> e = InvalidSignature s"
proof (cases "parse_gufunc_signature uw s")
  case (Inl e')
  assume "vectorize uw s = Inl e"
  with Inl have "e' = e" by (simp add: vectorize_def)
  with Inl show ?thesis by (simp add: parse_gufunc_signature_error)
next
  case (Inr sides)
  assume v: "vectorize uw s = Inl e"
  from Inr obtain ins outs where "sides = [ins, outs]"
    unfolding parse_gufunc_signature_iff by blast
  with Inr v show ?thesis by (simp add: vectorize_def)
qed

section \<open>The wrapper\<close>

subsection \<open>Batching, index by index\<close>

lemma slice_at_Nil [simp]: "slice_at [] a = a"
  by (simp add: slice_at_def)

lemma sub_at_Nil [simp]: "sub_at [] v = v"
  by (cases v) (simp_all add: sub_at_def map_idI)

lemma slice_at_Cons: "slice_at (i # idx) a = slice_at idx (slice0 i a)"
  by (simp add: slice_at_def slice0_def drop_Suc)

lemma sub_at_Cons: "sub_at (i # idx) v = sub_at idx (sub_at [i] v)"
  by (cases v) (simp_all add: sub_at_def slice_at_def drop_Suc comp_def flip: drop_drop)

lemma slice_at_single: "slice_at [i] a = slice0 i a"
  by (simp add: slice_at_def slice0_def drop_Suc)

lemma first_error_None:
  "first_error rs = None \<longleftrightarrow> (\<forall>r \<in> set rs. \<exists>v. r = Inr v)"
proof (induction rs)
  case Nil
  show ?case by simp
next
  case (Cons r rs)
  then show ?case by (cases r) auto
qed

lemma first_error_Some:
  "first_error rs = Some e \<Longrightarrow> Inl e \<in> set rs"
proof (induction rs)
  case Nil
  then show ?case by simp
next
  case (Cons r rs)
  then show ?case by (cases r) auto
qed

lemma slice0_stack0:
  "shape (f i) = shape (f 0) \<Longrightarrow> slice0 i (stack0 n f) = f i"
  by (simp add: slice0_def stack0_def)

lemma vmap_Inr:
  assumes "vmap g xs = Inr res"
  shows "\<exists>n. vmap_axis_size xs = Inr n
    \<and> (\<forall>j < max n 1. \<exists>v. g (map (slice0 j) xs) = Inr v \<and> form v = form (projr (g (map (slice0 0) xs))))
    \<and> res = vmap_stack n (\<lambda>i. projr (g (map (slice0 i) xs)))"
proof -
  let ?run = "\<lambda>i. g (map (slice0 i) xs)"
  from assms obtain n where n: "vmap_axis_size xs = Inr n"
    by (cases "vmap_axis_size xs") (simp_all add: vmap_def)
  let ?outs = "map ?run [0..<max n 1]"
  from assms n have fe: "first_error ?outs = None"
    by (cases "first_error ?outs") (simp_all add: vmap_def Let_def del: set_map map_map)
  from assms n fe have fm: "\<not> (\<exists>r \<in> set ?outs. form (projr r) \<noteq> form (projr (?run 0)))"
    by (cases "\<exists>r \<in> set ?outs. form (projr r) \<noteq> form (projr (?run 0))")
       (simp_all add: vmap_def Let_def del: set_map map_map)
  from assms n fe fm have res: "res = vmap_stack n (\<lambda>i. projr (?run i))"
    by (simp add: vmap_def Let_def del: set_map map_map)
  have all: "\<exists>v. ?run j = Inr v \<and> form v = form (projr (?run 0))" if "j < max n 1" for j
  proof -
    from that have m: "?run j \<in> set ?outs" by simp
    with fe obtain v where v: "?run j = Inr v" unfolding first_error_None by blast
    from m fm have "form (projr (?run j)) = form (projr (?run 0))" by blast
    with v show ?thesis by simp
  qed
  from n all res show ?thesis by blast
qed

lemma vmap_axis_size_Inr:
  "vmap_axis_size xs = Inr n \<longleftrightarrow>
     xs \<noteq> [] \<and> (\<forall>a \<in> set xs. shape a \<noteq> [] \<and> hd (shape a) = n)"
  by (cases xs) (auto simp: vmap_axis_size_def Let_def)

lemma slice_at_vmap_stack:
  assumes "vs i = v" and "vs 0 = v0" and "form v = form v0"
  shows "sub_at [i] (vmap_stack n vs) = v"
proof (cases v0)
  case (Arr a0)
  with assms(3) obtain a where a: "v = Arr a" "shape a = shape a0"
    by (cases v) (auto simp: form_def)
  have "slice0 i (stack0 n (\<lambda>i. un_arr (vs i))) = un_arr (vs i)"
    by (rule slice0_stack0) (simp add: assms a Arr)
  then show ?thesis using assms a Arr by (simp add: sub_at_def vmap_stack_def slice_at_single)
next
  case (Tup as0)
  with assms(3) obtain as where as: "v = Tup as" "map shape as = map shape as0"
    by (cases v) (auto simp: form_def)
  then have len: "length as = length as0" using map_eq_imp_length_eq by blast
  have "slice0 i (stack0 n (\<lambda>i. un_tup (vs i) ! k)) = as ! k" if "k < length as0" for k
  proof -
    from as(2) that len have "shape (as ! k) = shape (as0 ! k)" by (metis nth_map)
    then have "slice0 i (stack0 n (\<lambda>i. un_tup (vs i) ! k)) = un_tup (vs i) ! k"
      by (intro slice0_stack0) (simp add: assms as Tup)
    then show ?thesis by (simp add: assms as)
  qed
  then have "map (slice0 i) (map (\<lambda>k. stack0 n (\<lambda>i. un_tup (vs i) ! k)) [0..<length as0])
               = map (\<lambda>k. as ! k) [0..<length as0]"
    by simp
  also have "\<dots> = as" using len map_nth [of as] by simp
  finally show ?thesis using assms as Tup
    by (simp add: sub_at_def vmap_stack_def slice_at_single [abs_def] del: map_map)
qed

text \<open>What a successful \<open>vmap\<close> returns, index by index.\<close>

lemma vmap_Inr_index:
  assumes "vmap g xs = Inr res" and "i < hd (shape (hd xs))"
  shows "g (map (slice0 i) xs) = Inr (sub_at [i] res)"
proof -
  from vmap_Inr [OF assms(1)] obtain n where n: "vmap_axis_size xs = Inr n"
    and all: "\<And>j. j < max n 1 \<Longrightarrow> \<exists>v. g (map (slice0 j) xs) = Inr v \<and> form v = form (projr (g (map (slice0 0) xs)))"
    and res: "res = vmap_stack n (\<lambda>i. projr (g (map (slice0 i) xs)))"
    by blast
  from n have "hd (shape (hd xs)) = n" unfolding vmap_axis_size_Inr by (cases xs) auto
  with assms(2) have "i < max n 1" by simp
  from all [OF this] obtain v where v: "g (map (slice0 i) xs) = Inr v"
    "form v = form (projr (g (map (slice0 0) xs)))" by blast
  have "sub_at [i] (vmap_stack n (\<lambda>i. projr (g (map (slice0 i) xs)))) = v"
    by (rule slice_at_vmap_stack [where ?v0.0 = "projr (g (map (slice0 0) xs))"]) (simp_all add: v)
  with v res show ?thesis by simp
qed

lemma in_range_Nil [simp]: "in_range [] idx \<longleftrightarrow> idx = []"
  by (auto simp: in_range_def)

lemma in_range_Cons:
  "in_range (n # shp) idx \<longleftrightarrow> (\<exists>i idx'. idx = i # idx' \<and> i < n \<and> in_range shp idx')"
  by (cases idx) (auto simp: in_range_def)

lemma vmap_iter_index:
  "(vmap ^^ k) f xs = Inr res \<Longrightarrow> in_range (take k (shape (hd xs))) idx \<Longrightarrow> k \<le> length (shape (hd xs)) \<Longrightarrow>
   f (map (slice_at idx) xs) = Inr (sub_at idx res)"
proof (induction k arbitrary: xs res idx)
  case 0
  then show ?case by (simp add: map_idI)
next
  case (Suc k)
  let ?g = "(vmap ^^ k) f"
  from Suc.prems(1) have v: "vmap ?g xs = Inr res" by simp
  from vmap_Inr [OF v] obtain n where n: "vmap_axis_size xs = Inr n" by blast
  then obtain x xs' where xs: "xs = x # xs'" and ne: "shape x \<noteq> []" and hd: "hd (shape x) = n"
    unfolding vmap_axis_size_Inr by (cases xs) auto
  then obtain rest where sh: "shape x = n # rest" by (cases "shape x") auto
  from Suc.prems(2) xs sh obtain i idx' where idx: "idx = i # idx'" "i < n" "in_range (take k rest) idx'"
    by (auto simp: in_range_Cons)
  from v idx(2) xs sh have g: "?g (map (slice0 i) xs) = Inr (sub_at [i] res)"
    by (intro vmap_Inr_index) simp_all
  have h: "shape (hd (map (slice0 i) xs)) = rest" using xs sh by (simp add: slice0_def)
  from Suc.prems(3) xs sh have k: "k \<le> length rest" by simp
  from Suc.IH [OF g] idx(3) h k
  have "f (map (slice_at idx') (map (slice0 i) xs)) = Inr (sub_at idx' (sub_at [i] res))"
    by (simp del: map_map)
  moreover have "map (slice_at idx') (map (slice0 i) xs) = map (slice_at idx) xs"
    by (simp add: idx slice_at_Cons)
  ultimately have "f (map (slice_at idx) xs) = Inr (sub_at idx' (sub_at [i] res))"
    by (simp only:)
  then show ?case by (simp only: idx sub_at_Cons [of i idx'])
qed

lemma broadcast_to_shape: "broadcast_to a t = Inr b \<Longrightarrow> shape b = t"
  by (auto simp: broadcast_to_def Let_def split: if_splits)

lemma broadcast_each_shapes:
  "broadcast_each (zip args shapes) = Inr bargs \<Longrightarrow> length args = length shapes \<Longrightarrow>
   map shape bargs = shapes"
proof (induction args shapes arbitrary: bargs rule: list_induct2')
  case (4 a args s shapes)
  then show ?case by (auto split: sum.splits dest: broadcast_to_shape)
qed simp_all

lemma lookup_dims_length: "lookup_dims ds cd = Inr vs \<Longrightarrow> length vs = length cd"
  by (induction cd arbitrary: vs) (auto split: option.splits sum.splits)

lemma calculate_shapes_form:
  "calculate_shapes P ds icd = Inr shapes \<Longrightarrow>
   length shapes = length icd
   \<and> (\<forall>k < length icd. \<exists>vs. lookup_dims ds (icd ! k) = Inr vs \<and> shapes ! k = P @ vs)"
proof (induction icd arbitrary: shapes)
  case Nil
  then show ?case by simp
next
  case (Cons cd icd)
  from Cons.prems obtain vs rest where vs: "lookup_dims ds cd = Inr vs"
    and rest: "calculate_shapes P ds icd = Inr rest" and sh: "shapes = (P @ vs) # rest"
    by (auto split: sum.splits)
  from Cons.IH [OF rest] have ih: "length rest = length icd"
    "\<forall>k < length icd. \<exists>vs. lookup_dims ds (icd ! k) = Inr vs \<and> rest ! k = P @ vs" by simp_all
  show ?case
  proof (intro conjI allI impI)
    show "length shapes = length (cd # icd)" using sh ih by simp
  next
    fix k assume "k < length (cd # icd)"
    then show "\<exists>vs. lookup_dims ds ((cd # icd) ! k) = Inr vs \<and> shapes ! k = P @ vs"
      using vs sh ih by (cases k) simp_all
  qed
qed

lemma broadcast_with_core_dims_shapes:
  assumes "broadcast_with_core_dims args icd ocd = Inr bargs"
    and "parse_input_dimensions args icd = Inr (P, ds)"
  shows "length bargs = length icd
     \<and> (\<forall>k < length icd. \<exists>vs. lookup_dims ds (icd ! k) = Inr vs \<and> shape (bargs ! k) = P @ vs)"
proof -
  from assms have len: "length args = length icd"
    by (auto simp: broadcast_with_core_dims_def split: if_splits)
  from assms len obtain shapes where cs: "calculate_shapes P ds icd = Inr shapes"
    and be: "broadcast_each (zip args shapes) = Inr bargs"
    by (auto simp: broadcast_with_core_dims_def split: sum.splits)
  from calculate_shapes_form [OF cs] have f: "length shapes = length icd"
    "\<forall>k < length icd. \<exists>vs. lookup_dims ds (icd ! k) = Inr vs \<and> shapes ! k = P @ vs" by simp_all
  from broadcast_each_shapes [OF be] len f(1) have m: "map shape bargs = shapes" by simp
  then have l: "length bargs = length shapes" using length_map by metis
  have "shape (bargs ! k) = shapes ! k" if "k < length icd" for k
    using that m l f(1) by (metis nth_map)
  with f l show ?thesis by simp
qed

lemma num_batch_dims_prefix:
  assumes "broadcast_with_core_dims args icd ocd = Inr bargs"
    and "parse_input_dimensions args icd = Inr (P, ds)" and "icd \<noteq> []"
  shows "num_batch_dims bargs icd = Inr (int (length P))"
    and "bargs \<noteq> []" and "take (length P) (shape (hd bargs)) = P"
proof -
  from broadcast_with_core_dims_shapes [OF assms(1,2)]
  have l: "length bargs = length icd"
    and s: "\<forall>k < length icd. \<exists>vs. lookup_dims ds (icd ! k) = Inr vs \<and> shape (bargs ! k) = P @ vs"
    by simp_all
  from assms(3) l obtain b0 bs c0 cs where b: "bargs = b0 # bs" and c: "icd = c0 # cs"
    by (cases bargs; cases icd) auto
  from s c obtain vs where vs: "lookup_dims ds c0 = Inr vs" "shape (bargs ! 0) = P @ vs" by force
  with b have sh: "shape b0 = P @ vs" by simp
  from vs(1) have "length vs = length c0" by (rule lookup_dims_length)
  with sh b c show "num_batch_dims bargs icd = Inr (int (length P))"
    by (simp add: num_batch_dims_def)
  from b show "bargs \<noteq> []" by simp
  from sh b show "take (length P) (shape (hd bargs)) = P" by simp
qed

lemma wrapper_None_unfold:
  "wrapper icd ocd func None args =
     (case broadcast_with_core_dims args icd ocd of
        Inl e \<Rightarrow> Inl e
      | Inr bargs \<Rightarrow>
          (case num_batch_dims bargs icd of
             Inl e \<Rightarrow> Inl e
           | Inr nb \<Rightarrow> (vmap ^^ nat nb) func bargs))"
  by (simp add: wrapper_def Let_def split: sum.splits)

lemma broadcast_with_core_dims_resolved:
  "broadcast_with_core_dims args icd ocd = Inr bargs \<Longrightarrow> \<exists>P ds. parse_input_dimensions args icd = Inr (P, ds)"
  by (auto simp: broadcast_with_core_dims_def split: if_splits sum.splits)

subsection \<open>Examples on arrays of zeros\<close>

lemma upt_2 [simp]: "[0..<2] = [0, Suc 0]"
  by (simp add: upt_rec)

lemma shape_zeros [simp]: "shape (zeros shp) = shp"
  by (simp add: zeros_def)

lemma item_zeros [simp]: "item (zeros shp) idx = 0"
  by (simp add: zeros_def)

lemma slice0_zeros [simp]: "slice0 i (zeros (n # shp)) = zeros shp"
  by (simp add: slice0_def zeros_def)

lemma broadcast_to_zeros [simp]: "broadcast_to (zeros shp) shp = Inr (zeros shp)"
  by (simp add: broadcast_to_def zeros_def list_all2_same)

lemma resolve_zeros_23:
  "parse_input_dimensions [zeros [2, 3]] [[''n'']] = Inr ([2], [''n'' \<mapsto> 3])"
  by (simp add: parse_input_dimensions_def update_dim_sizes_def ndim_def
      np_broadcast_shape_def max_rank_def bcast_dim_def bcast_step_def)

lemma resolve_zeros_3:
  "parse_input_dimensions [zeros [3]] [[''n'']] = Inr ([], [''n'' \<mapsto> 3])"
  by (simp add: parse_input_dimensions_def update_dim_sizes_def ndim_def
      np_broadcast_shape_def max_rank_def)

lemma broadcast_zeros_23:
  "broadcast_with_core_dims [zeros [2, 3]] [[''n'']] ocd = Inr [zeros [2, 3]]"
  by (simp add: broadcast_with_core_dims_def resolve_zeros_23)

lemma broadcast_zeros_3:
  "broadcast_with_core_dims [zeros [3]] [[''n'']] ocd = Inr [zeros [3]]"
  by (simp add: broadcast_with_core_dims_def resolve_zeros_3)

lemma vmap_first_arg_zeros:
  "vmap first_arg [zeros [2, 3]] = Inr (Arr (zeros [2, 3]))"
proof -
  have r: "first_arg [zeros [3]] = Inr (Arr (zeros [3]))"
    by (simp add: first_arg_def)
  have "stack0 2 (\<lambda>i. zeros [3]) = zeros [2, 3]" by (simp add: stack0_def zeros_def)
  then show ?thesis
    by (simp add: vmap_def vmap_axis_size_def r vmap_stack_def form_def Let_def)
qed

lemma wrapper_first_arg_zeros:
  "wrapper [[''n'']] [[''n'']] first_arg None [zeros [2, 3]] = Inr (Arr (zeros [2, 3]))"
  by (simp add: wrapper_None_unfold broadcast_zeros_23 num_batch_dims_def vmap_first_arg_zeros)

subsection \<open>Shapes under batching\<close>

lemma first_error_all_Inr: "(\<forall>r \<in> set rs. \<exists>v. r = Inr v) \<Longrightarrow> first_error rs = None"
  by (simp add: first_error_None)

lemma vmap_eq:
  assumes n: "vmap_axis_size xs = Inr n"
    and all: "\<And>i. i < max n 1 \<Longrightarrow> \<exists>v. g (map (slice0 i) xs) = Inr v \<and> form v = F"
  shows "vmap g xs = Inr (vmap_stack n (\<lambda>i. projr (g (map (slice0 i) xs))))"
proof -
  let ?run = "\<lambda>i. g (map (slice0 i) xs)"
  let ?outs = "map ?run [0..<max n 1]"
  have fe: "first_error ?outs = None"
    unfolding first_error_None
  proof
    fix r assume "r \<in> set ?outs"
    then obtain i where "i < max n 1" "r = ?run i" by auto
    with all [of i] show "\<exists>v. r = Inr v" by auto
  qed
  have "0 < max n 1" by simp
  from all [OF this] have f0: "form (projr (?run 0)) = F" by auto
  have fm: "\<not> (\<exists>r \<in> set ?outs. form (projr r) \<noteq> form (projr (?run 0)))"
    unfolding f0
  proof
    assume "\<exists>r \<in> set ?outs. form (projr r) \<noteq> F"
    then obtain i where "i < max n 1" "form (projr (?run i)) \<noteq> F" by auto
    with all [of i] show False by auto
  qed
  show ?thesis
    using n fe fm by (simp add: vmap_def Let_def del: set_map map_map)
qed

lemma form_vmap_stack:
  assumes "form (vs 0) = (t, os)"
  shows "form (vmap_stack n vs) = (t, map ((#) n) os)"
proof (cases "vs 0")
  case (Arr a0)
  with assms show ?thesis by (auto simp: form_def vmap_stack_def stack0_def)
next
  case (Tup as0)
  with assms have os: "os = map shape as0" and t: "t" by (auto simp: form_def)
  have "map shape (map (\<lambda>k. stack0 n (\<lambda>i. un_tup (vs i) ! k)) [0..<length as0])
          = map (\<lambda>k. n # shape (as0 ! k)) [0..<length as0]"
    using Tup by (simp add: stack0_def)
  also have "\<dots> = map ((#) n) (map shape as0)"
    by (rule nth_equalityI) simp_all
  finally show ?thesis using Tup os t by (simp add: form_def vmap_stack_def del: map_map)
qed

lemma contract_vmap:
  assumes "contract g cs t os" and "cs \<noteq> []"
  shows "contract (vmap g) (map ((#) n) cs) t (map ((#) n) os)"
  unfolding contract_def
proof (intro allI impI)
  fix xs :: "'a ndarray list"
  assume sh: "map shape xs = map ((#) n) cs"
  then have len: "length xs = length cs" using map_eq_imp_length_eq by fastforce
  with assms(2) have ne: "xs \<noteq> []" by auto
  have each: "shape a \<noteq> [] \<and> hd (shape a) = n" if "a \<in> set xs" for a
  proof -
    from that have "shape a \<in> set (map ((#) n) cs)" using sh by (metis imageI set_map)
    then show ?thesis by auto
  qed
  then have ax: "vmap_axis_size xs = Inr n" unfolding vmap_axis_size_Inr using ne by blast
  have sl: "map shape (map (slice0 i) xs) = cs" for i
  proof -
    have "map shape (map (slice0 i) xs) = map tl (map shape xs)"
      by (simp add: slice0_def comp_def)
    also have "\<dots> = cs" unfolding sh by (simp add: comp_def)
    finally show ?thesis .
  qed
  have run: "\<exists>v. g (map (slice0 i) xs) = Inr v \<and> form v = (t, os)" for i
    using assms(1) sl [of i] unfolding contract_def by blast
  from vmap_eq [OF ax, of g "(t, os)"] run
  have v: "vmap g xs = Inr (vmap_stack n (\<lambda>i. projr (g (map (slice0 i) xs))))" by blast
  from run [of 0] have "form (projr (g (map (slice0 0) xs))) = (t, os)" by auto
  then have "form (vmap_stack n (\<lambda>i. projr (g (map (slice0 i) xs)))) = (t, map ((#) n) os)"
    by (rule form_vmap_stack)
  with v show "\<exists>v. vmap g xs = Inr v \<and> form v = (t, map ((#) n) os)" by blast
qed

lemma contract_vmap_iter:
  assumes "contract f cs t os" and "cs \<noteq> []"
  shows "contract ((vmap ^^ length P) f) (map ((@) P) cs) t (map ((@) P) os)"
proof (induction P)
  case Nil
  have "(@) ([] :: nat list) = (\<lambda>x. x)" by (rule ext) simp
  with assms(1) show ?case by simp
next
  case (Cons n P)
  have c: "map ((@) (n # P)) ys = map ((#) n) (map ((@) P) ys)" for ys :: "nat list list"
    by simp
  from assms(2) have "map ((@) P) cs \<noteq> []" by simp
  from contract_vmap [OF Cons this, of n] show ?case unfolding c by simp
qed

subsection \<open>The broadcast step succeeds\<close>

lemma update_loop_keeps:
  "update_loop ds ps = Inr ds' \<Longrightarrow> ds d = Some v \<Longrightarrow> ds' d = Some v"
proof (induction ps arbitrary: ds)
  case Nil
  then show ?case by simp
next
  case (Cons p ps)
  obtain d0 s0 where p: "p = (d0, s0)" by (cases p)
  show ?case
  proof (cases "ds d0")
    case None
    with Cons.prems(1) p have u: "update_loop (ds(d0 \<mapsto> s0)) ps = Inr ds'" by simp
    from None Cons.prems(2) have "d \<noteq> d0" by auto
    with Cons.prems(2) have "(ds(d0 \<mapsto> s0)) d = Some v" by simp
    from Cons.IH [OF u this] show ?thesis .
  next
    case (Some v0)
    with Cons.prems(1) p have u: "update_loop ds ps = Inr ds'" by (auto split: if_splits)
    from Cons.IH [OF u Cons.prems(2)] show ?thesis .
  qed
qed

lemma update_loop_all:
  "update_loop ds ps = Inr ds' \<Longrightarrow> (d, s) \<in> set ps \<Longrightarrow> ds' d = Some s"
proof (induction ps arbitrary: ds)
  case Nil
  then show ?case by simp
next
  case (Cons p ps)
  obtain d0 s0 where p: "p = (d0, s0)" by (cases p)
  show ?case
  proof (cases "ds d0")
    case None
    with Cons.prems(1) p have u: "update_loop (ds(d0 \<mapsto> s0)) ps = Inr ds'" by simp
    show ?thesis
    proof (cases "(d, s) = (d0, s0)")
      case True
      have "(ds(d0 \<mapsto> s0)) d0 = Some s0" by simp
      from update_loop_keeps [OF u this] True show ?thesis by simp
    next
      case False
      with Cons.prems(2) p have "(d, s) \<in> set ps" by auto
      from Cons.IH [OF u this] show ?thesis .
    qed
  next
    case (Some v0)
    with Cons.prems(1) p have e: "s0 = v0" and u: "update_loop ds ps = Inr ds'"
      by (auto split: if_splits)
    show ?thesis
    proof (cases "(d, s) = (d0, s0)")
      case True
      from update_loop_keeps [OF u Some] True e show ?thesis by simp
    next
      case False
      with Cons.prems(2) p have "(d, s) \<in> set ps" by auto
      from Cons.IH [OF u this] show ?thesis .
    qed
  qed
qed

lemma lookup_dims_all:
  "length vs = length cd \<Longrightarrow> \<forall>p \<in> set (zip cd vs). ds (fst p) = Some (snd p) \<Longrightarrow>
   lookup_dims ds cd = Inr vs"
  by (induction cd vs rule: list_induct2') auto

lemma core_pairs_member:
  assumes "(arg, cd) \<in> set (zip args icd)" and "p \<in> set (zip cd (core_shape_of arg cd))"
  shows "p \<in> set (core_pairs args icd)"
  using assms unfolding core_pairs_def by auto

lemma lookup_core_shape:
  assumes "update_loop ds0 (core_pairs args icd) = Inr ds"
    and "(arg, cd) \<in> set (zip args icd)" and "length cd \<le> ndim arg"
  shows "lookup_dims ds cd = Inr (core_shape_of arg cd)"
proof (rule lookup_dims_all)
  show "length (core_shape_of arg cd) = length cd"
    using assms(3) by (simp add: core_shape_of_def ndim_def)
next
  show "\<forall>p \<in> set (zip cd (core_shape_of arg cd)). ds (fst p) = Some (snd p)"
  proof
    fix p assume "p \<in> set (zip cd (core_shape_of arg cd))"
    with assms(2) have "p \<in> set (core_pairs args icd)" by (rule core_pairs_member)
    then have "(fst p, snd p) \<in> set (core_pairs args icd)" by simp
    with assms(1) show "ds (fst p) = Some (snd p)" by (rule update_loop_all)
  qed
qed

lemma calculate_shapes_all:
  "list_all2 (\<lambda>cd vs. lookup_dims ds cd = Inr vs) icd vss \<Longrightarrow>
   calculate_shapes P ds icd = Inr (map ((@) P) vss)"
  by (induction icd vss rule: list_all2_induct) simp_all

lemma broadcast_to_compatible:
  "compatible (shape a) t \<Longrightarrow> \<exists>b. broadcast_to a t = Inr b"
  by (simp add: broadcast_to_def compatible_def Let_def)

lemma broadcast_each_all:
  "list_all2 (\<lambda>a s. compatible (shape a) s) args shapes \<Longrightarrow>
   \<exists>bargs. broadcast_each (zip args shapes) = Inr bargs"
proof (induction args shapes rule: list_all2_induct)
  case Nil
  show ?case by simp
next
  case (Cons a args s shapes)
  from Cons(1) obtain b where "broadcast_to a s = Inr b" using broadcast_to_compatible by blast
  moreover from Cons(3) obtain bargs where "broadcast_each (zip args shapes) = Inr bargs" by blast
  ultimately show ?case by simp
qed

lemma column_Some:
  "column (Some d) rs j = Some v \<Longrightarrow>
   (d = 1 \<or> d = v) \<and> (\<forall>r \<in> set rs. dim_from_right r j = 1 \<or> dim_from_right r j = v)"
proof (induction rs arbitrary: d)
  case Nil
  then show ?case by simp
next
  case (Cons r rs)
  let ?t = "dim_from_right r j"
  from Cons.prems obtain d' where c: "combine_dim d ?t = Some d'" and r: "column (Some d') rs j = Some v"
    by (cases "combine_dim d ?t") simp_all
  from Cons.IH [OF r] have ih: "d' = 1 \<or> d' = v" "\<forall>r \<in> set rs. dim_from_right r j = 1 \<or> dim_from_right r j = v"
    by simp_all
  from c have "(?t = 1 \<and> d' = d) \<or> (d = 1 \<and> d' = ?t) \<or> (d = ?t \<and> d' = d)"
    by (auto simp: combine_dim_def split: if_splits)
  with ih show ?case by auto
qed

lemma np_broadcast_shape_Inr:
  assumes "np_broadcast_shape shapes = Inr B"
  shows "length B = max_rank shapes"
    and "\<And>i. i < max_rank shapes \<Longrightarrow> bcast_dim shapes (max_rank shapes) i = Some (B ! i)"
proof -
  let ?nd = "max_rank shapes"
  let ?dims = "map (bcast_dim shapes ?nd) [0..<?nd]"
  from assms have n: "None \<notin> set ?dims" and B: "B = map the ?dims"
    by (auto simp: np_broadcast_shape_def Let_def split: if_splits)
  from B show "length B = ?nd" by simp
  fix i assume i: "i < ?nd"
  then have "bcast_dim shapes ?nd i \<in> set ?dims" by simp
  with n obtain v where v: "bcast_dim shapes ?nd i = Some v"
    by (cases "bcast_dim shapes ?nd i") auto
  moreover from B i have "B ! i = the (bcast_dim shapes ?nd i)" by simp
  ultimately show "bcast_dim shapes ?nd i = Some (B ! i)" by simp
qed

lemma np_broadcast_shape_compatible:
  assumes "np_broadcast_shape shapes = Inr B" and "s \<in> set shapes"
  shows "compatible s B"
proof -
  let ?nd = "max_rank shapes"
  from np_broadcast_shape_Inr [OF assms(1)] have len: "length B = ?nd"
    and dims: "\<And>i. i < ?nd \<Longrightarrow> bcast_dim shapes ?nd i = Some (B ! i)" by simp_all
  from assms(2) have le: "length s \<le> ?nd" by (rule max_rank_ge)
  let ?k = "?nd - length s"
  have "s ! p = drop ?k B ! p \<or> s ! p = 1" if p: "p < length s" for p
  proof -
    let ?i = "?k + p"
    from p le have i: "?i < ?nd" by arith
    from dims [OF i] have "column (Some 1) (map rev shapes) (?nd - 1 - ?i) = Some (B ! ?i)"
      by (simp add: bcast_dim_column [OF i])
    from column_Some [OF this] assms(2)
    have "dim_from_right (rev s) (?nd - 1 - ?i) = 1 \<or> dim_from_right (rev s) (?nd - 1 - ?i) = B ! ?i"
      by auto
    moreover from p le have j: "?nd - 1 - ?i = length s - 1 - p" by arith
    moreover have "dim_from_right (rev s) (length s - 1 - p) = s ! p"
    proof -
      from p have q: "length s - 1 - p < length s" by arith
      from p have "length s - Suc (length s - 1 - p) = p" by arith
      with q show ?thesis by (simp add: dim_from_right_def rev_nth)
    qed
    moreover from p le len have "drop ?k B ! p = B ! ?i" by simp
    ultimately show ?thesis by auto
  qed
  moreover from le len have "length (drop ?k B) = length s" by simp
  ultimately have "list_all2 (\<lambda>d e. d = e \<or> d = 1) s (drop ?k B)"
    by (simp add: list_all2_conv_all_nth)
  with le len show ?thesis by (simp add: compatible_def)
qed

lemma compatible_append:
  assumes "compatible p P"
  shows "compatible (p @ c) (P @ c)"
proof -
  from assms have le: "length p \<le> length P"
    and a: "list_all2 (\<lambda>d e. d = e \<or> d = 1) p (drop (length P - length p) P)"
    by (simp_all add: compatible_def)
  have "list_all2 (\<lambda>d e. d = e \<or> d = 1) c c" by (simp add: list_all2_same)
  with a have "list_all2 (\<lambda>d e. d = e \<or> d = 1) (p @ c) (drop (length P - length p) P @ c)"
    by (rule list_all2_appendI)
  with le show ?thesis by (simp add: compatible_def)
qed

lemma shape_split:
  "length cd \<le> ndim arg \<Longrightarrow> shape arg = prefix_of arg cd @ core_shape_of arg cd"
  by (simp add: prefix_of_def core_shape_of_def)

text \<open>The broadcast step succeeds for arguments that the resolver accepts.\<close>

lemma broadcast_with_core_dims_succeeds:
  assumes len: "length args = length icd"
    and p: "parse_input_dimensions args icd = Inr (P, ds)"
  shows "\<exists>bargs. broadcast_with_core_dims args icd ocd = Inr bargs
           \<and> map shape bargs = map ((@) P) (core_shapes args icd)"
proof -
  from p obtain bas where pid: "pid_loop Map.empty [] (zip args icd) = Inr (bas, ds)"
    and nb: "np_broadcast_shape bas = Inr P"
    by (auto simp: parse_input_dimensions_def split: sum.splits)
  from pid have rk: "ranks_ok args icd" by (rule pid_loop_ranks)
  with pid have walk: "update_loop Map.empty (core_pairs args icd) = Inr ds"
    and bas: "bas = prefixes args icd"
    by (auto simp: pid_loop_walk split: sum.splits)
  have each: "length cd \<le> ndim arg" if "(arg, cd) \<in> set (zip args icd)" for arg cd
    using rk that by (auto simp: ranks_ok_def list_all_iff)
  have "list_all2 (\<lambda>cd vs. lookup_dims ds cd = Inr vs) icd (core_shapes args icd)"
    unfolding list_all2_conv_all_nth
  proof (intro conjI allI impI)
    show "length icd = length (core_shapes args icd)" using len by (simp add: core_shapes_def)
  next
    fix k assume k: "k < length icd"
    with len have m: "(args ! k, icd ! k) \<in> set (zip args icd)"
      by (metis in_set_zip fst_conv snd_conv)
    from k len have "core_shapes args icd ! k = core_shape_of (args ! k) (icd ! k)"
      by (simp add: core_shapes_def)
    with lookup_core_shape [OF walk m each [OF m]]
    show "lookup_dims ds (icd ! k) = Inr (core_shapes args icd ! k)" by simp
  qed
  then have cs: "calculate_shapes P ds icd = Inr (map ((@) P) (core_shapes args icd))"
    by (rule calculate_shapes_all)
  have "list_all2 (\<lambda>a s. compatible (shape a) s) args (map ((@) P) (core_shapes args icd))"
    unfolding list_all2_conv_all_nth
  proof (intro conjI allI impI)
    show "length args = length (map ((@) P) (core_shapes args icd))"
      using len by (simp add: core_shapes_def)
  next
    fix k assume k: "k < length args"
    with len have m: "(args ! k, icd ! k) \<in> set (zip args icd)"
      by (metis in_set_zip fst_conv snd_conv)
    from k len have c: "map ((@) P) (core_shapes args icd) ! k = P @ core_shape_of (args ! k) (icd ! k)"
      by (simp add: core_shapes_def)
    from k len have "prefix_of (args ! k) (icd ! k) \<in> set (prefixes args icd)"
      unfolding prefixes_def using m by force
    with nb bas have "compatible (prefix_of (args ! k) (icd ! k)) P"
      by (intro np_broadcast_shape_compatible) simp_all
    then have "compatible (prefix_of (args ! k) (icd ! k) @ core_shape_of (args ! k) (icd ! k))
                 (P @ core_shape_of (args ! k) (icd ! k))"
      by (rule compatible_append)
    with shape_split [OF each [OF m]] c
    show "compatible (shape (args ! k)) (map ((@) P) (core_shapes args icd) ! k)" by simp
  qed
  then obtain bargs where be: "broadcast_each (zip args (map ((@) P) (core_shapes args icd))) = Inr bargs"
    using broadcast_each_all by blast
  with len p cs have b: "broadcast_with_core_dims args icd ocd = Inr bargs"
    by (simp add: broadcast_with_core_dims_def)
  from broadcast_each_shapes [OF be] len
  have "map shape bargs = map ((@) P) (core_shapes args icd)" by (simp add: core_shapes_def)
  with b show ?thesis by blast
qed

lemma form_Arr: "form v = (False, ss) \<Longrightarrow> \<exists>a. v = Arr a \<and> ss = [shape a]"
  by (cases v) (auto simp: form_def)

lemma form_Tup: "form v = (True, ss) \<Longrightarrow> \<exists>as. v = Tup as \<and> ss = map shape as"
  by (cases v) (auto simp: form_def)

lemma wrapper_shapes:
  assumes len: "length args = length icd" and ne: "icd \<noteq> []"
    and p: "parse_input_dimensions args icd = Inr (P, ds)"
    and c: "contract func (core_shapes args icd) t os"
  shows "\<exists>v. wrapper icd ocd func None args = Inr v \<and> form v = (t, map ((@) P) os)"
proof -
  from broadcast_with_core_dims_succeeds [OF len p, of ocd] obtain bargs
    where b: "broadcast_with_core_dims args icd ocd = Inr bargs"
    and sh: "map shape bargs = map ((@) P) (core_shapes args icd)" by blast
  from num_batch_dims_prefix(1) [OF b p ne] have nb: "num_batch_dims bargs icd = Inr (int (length P))" .
  from len ne have "core_shapes args icd \<noteq> []" by (cases args; cases icd) (simp_all add: core_shapes_def)
  from contract_vmap_iter [OF c this, of P] sh
  obtain v where "(vmap ^^ length P) func bargs = Inr v" "form v = (t, map ((@) P) os)"
    unfolding contract_def by blast
  with b nb show ?thesis by (simp add: wrapper_None_unfold)
qed

subsection \<open>More examples\<close>

lemma core_shapes_zeros_23: "core_shapes [zeros [2, 3]] [[''n'']] = [[3]]"
  by (simp add: core_shapes_def core_shape_of_def ndim_def)

lemma contract_first_arg: "contract first_arg [[3]] False [[3]]"
  unfolding contract_def
proof (intro allI impI)
  fix xs :: "'a ndarray list"
  assume "map shape xs = [[3]]"
  then obtain x where "xs = [x]" "shape x = [3]" by (cases xs) auto
  then show "\<exists>v. first_arg xs = Inr v \<and> form v = (False, [[3]])"
    by (simp add: first_arg_def form_def)
qed

lemma contract_pair_arg: "contract pair_arg [[3]] True [[3], [3]]"
  unfolding contract_def
proof (intro allI impI)
  fix xs :: "'a ndarray list"
  assume "map shape xs = [[3]]"
  then obtain x where "xs = [x]" "shape x = [3]" by (cases xs) auto
  then show "\<exists>v. pair_arg xs = Inr v \<and> form v = (True, [[3], [3]])"
    by (simp add: pair_arg_def form_def)
qed

lemma vmap_pair_arg_zeros:
  "vmap pair_arg [zeros [2, 3]] = Inr (Tup [zeros [2, 3], zeros [2, 3]])"
proof -
  have r: "pair_arg [zeros [3]] = Inr (Tup [zeros [3], zeros [3]])"
    by (simp add: pair_arg_def)
  have "stack0 2 (\<lambda>i. zeros [3]) = zeros [2, 3]" by (simp add: stack0_def zeros_def)
  then show ?thesis
    by (simp add: vmap_def vmap_axis_size_def r vmap_stack_def form_def Let_def)
qed

lemma wrapper_pair_arg_zeros:
  "wrapper [[''n'']] [[''n''], [''n'']] pair_arg None [zeros [2, 3]]
     = Inr (Tup [zeros [2, 3], zeros [2, 3]])"
  by (simp add: wrapper_None_unfold broadcast_zeros_23 num_batch_dims_def vmap_pair_arg_zeros)

lemma zeros_out_contract: "contract (zeros_out shp) cs False [shp]"
  by (simp add: contract_def zeros_out_def form_def)

subsection \<open>Output core dimensions\<close>

lemma broadcast_with_core_dims_ocd:
  "broadcast_with_core_dims args icd ocd = broadcast_with_core_dims args icd ocd'"
  by (simp add: broadcast_with_core_dims_def)

lemma wrapper_None_ocd:
  "wrapper icd ocd func None args = wrapper icd ocd' func None args"
  by (simp add: wrapper_None_unfold broadcast_with_core_dims_ocd [of args icd ocd ocd'])

lemma parse_unit_n: "parse_gufunc_signature uw ''()->(n)'' = Inr [[[]], [[''n'']]]"
  by (simp add: parse_gufunc_signature_def re_match_def grammar_defs findall.simps)

lemma parse_unit_nm: "parse_gufunc_signature uw ''()->(n,m)'' = Inr [[[]], [[''n'', ''m'']]]"
  by (simp add: parse_gufunc_signature_def re_match_def grammar_defs findall.simps)

lemma vmap_zeros_out:
  "vmap (zeros_out shp) [zeros (m # s)] = Inr (Arr (zeros (m # shp)))"
proof -
  have ax: "vmap_axis_size [zeros (m # s)] = Inr m" by (simp add: vmap_axis_size_def)
  have "\<exists>v. zeros_out shp (map (slice0 i) [zeros (m # s)]) = Inr v \<and> form v = (False, [shp])" for i
    by (simp add: zeros_out_def form_def)
  from vmap_eq [OF ax, of "zeros_out shp" "(False, [shp])"] this
  have "vmap (zeros_out shp) [zeros (m # s)]
          = Inr (vmap_stack m (\<lambda>i. projr (zeros_out shp (map (slice0 i) [zeros (m # s)]))))"
    by blast
  moreover have "stack0 m (\<lambda>i. zeros shp) = zeros (m # shp)" by (simp add: stack0_def zeros_def)
  ultimately show ?thesis by (simp add: zeros_out_def vmap_stack_def)
qed

lemma resolve_zeros_m:
  "parse_input_dimensions [zeros [m]] [[]] = Inr ([m], Map.empty)"
proof -
  have "spec_broadcast [[m]] = Some [m]" by (simp add: spec_broadcast_def broadcast_pair_def)
  then show ?thesis
    by (simp add: parse_input_dimensions_def update_dim_sizes_def ndim_def np_broadcast_shape_spec)
qed

lemma wrapper_zeros_out:
  "wrapper [[]] [[''n'']] (zeros_out [k]) None [zeros [m]] = Inr (Arr (zeros [m, k]))"
  by (simp add: wrapper_None_unfold broadcast_with_core_dims_def resolve_zeros_m num_batch_dims_def
      vmap_zeros_out)

subsection \<open>The example \<^verbatim>\<open>center\<close>\<close>

lemma parse_center: "parse_gufunc_signature uw ''(n)->(),(n)'' = Inr [[[''n'']], [[], [''n'']]]"
  by (simp add: parse_gufunc_signature_def re_match_def grammar_defs findall.simps)

lemma upt_3: "[0..<3] = [0, 1, 2]"
  by (simp add: upt_rec)

lemma upt_4: "[0..<4] = [0, 1, 2, 3]"
  by (simp add: upt_rec)

lemma wrapper_axis_unfold:
  "wrapper [[''n'']] [[], [''n'']] func (Some ax) [a] =
     (case moveaxis a ax (- 1) of
        Inl e \<Rightarrow> Inl e
      | Inr a' \<Rightarrow>
          (case wrapper [[''n'']] [[], [''n'']] func None [a'] of
             Inl e \<Rightarrow> Inl e
           | Inr r \<Rightarrow> reorder_outputs r ax [[], [''n'']]))"
  by (simp add: wrapper_def verify_axis_is_supported_last split: sum.splits)

lemma reorder_outputs_center:
  "reorder_outputs (Tup [b, d]) ax [[], [''n'']] =
     (case moveaxis d (- 1) ax of Inl e \<Rightarrow> Inl e | Inr d' \<Rightarrow> Inr (Tup [b, d']))"
  by (simp add: reorder_outputs_def split: sum.splits)

lemma reorder_inputs_center:
  "reorder_inputs [a] ax [[''n'']] =
     (case moveaxis a ax (- 1) of Inl e \<Rightarrow> Inl e | Inr a' \<Rightarrow> Inr [a'])"
  by (simp split: sum.splits)

lemma call_center:
  "call_vectorized uw ''(n)->(),(n)'' func axis args = wrapper [[''n'']] [[], [''n'']] func axis args"
  by (simp add: call_vectorized_def vectorize_def parse_center)

lemma center_vector:
  "center [a] = Inr (Tup [\<lparr>shape = [], item = (\<lambda>idx. mean a)\<rparr>,
                          \<lparr>shape = shape a, item = (\<lambda>idx. item a idx - mean a)\<rparr>])"
  by (simp add: center_def Let_def)

lemma resolve_34:
  "shape a = [3, 4] \<Longrightarrow> parse_input_dimensions [a] [[''n'']] = Inr ([3], [''n'' \<mapsto> 4])"
  by (simp add: parse_input_dimensions_def update_dim_sizes_def ndim_def np_broadcast_shape_def
      max_rank_def bcast_dim_def bcast_step_def)

lemma resolve_43:
  "shape a = [4, 3] \<Longrightarrow> parse_input_dimensions [a] [[''n'']] = Inr ([4], [''n'' \<mapsto> 3])"
  by (simp add: parse_input_dimensions_def update_dim_sizes_def ndim_def np_broadcast_shape_def
      max_rank_def bcast_dim_def bcast_step_def)

lemma center_rows:
  fixes x :: "nat list \<Rightarrow> 'a::field"
  shows "\<exists>b d. wrapper [[''n'']] [[], [''n'']] center (Some 1) [matrix34 x] = Inr (Tup [b, d])
     \<and> shape b = [3] \<and> map (item b) (all_indices [3]) = map (row_mean x) [0, 1, 2]
     \<and> shape d = [3, 4]
     \<and> map (item d) (all_indices [3, 4])
         = map (\<lambda>idx. x idx - row_mean x (idx ! 0)) (all_indices [3, 4])"
  by (simp add: wrapper_axis_unfold moveaxis_def normalize_axis_def ndim_def move_def
      wrapper_None_unfold broadcast_with_core_dims_def resolve_34 matrix34_def
      broadcast_to_def num_batch_dims_def vmap_def vmap_axis_size_def center_vector Let_def
      form_def vmap_stack_def stack0_def slice0_def mean_def row_mean_def reorder_outputs_center
      upt_3 upt_4)

lemma center_cols:
  fixes x :: "nat list \<Rightarrow> 'a::field"
  shows "\<exists>b d. wrapper [[''n'']] [[], [''n'']] center (Some 0) [matrix34 x] = Inr (Tup [b, d])
     \<and> shape b = [4] \<and> map (item b) (all_indices [4]) = map (col_mean x) [0, 1, 2, 3]
     \<and> shape d = [3, 4]
     \<and> map (item d) (all_indices [3, 4])
         = map (\<lambda>idx. x idx - col_mean x (idx ! 1)) (all_indices [3, 4])"
  by (simp add: wrapper_axis_unfold moveaxis_def normalize_axis_def ndim_def move_def
      wrapper_None_unfold broadcast_with_core_dims_def resolve_43 matrix34_def
      broadcast_to_def num_batch_dims_def vmap_def vmap_axis_size_def center_vector Let_def
      form_def vmap_stack_def stack0_def slice0_def mean_def col_mean_def reorder_outputs_center
      upt_3 upt_4)

lemma center_axis_out_of_range:
  "wrapper [[''n'']] [[], [''n'']] center (Some 2) [matrix34 x] = Inl (AxisError 2 2)"
  by (simp add: wrapper_axis_unfold moveaxis_def normalize_axis_def ndim_def matrix34_def)

lemma moveaxis_matrix34:
  "map_sum id shape (moveaxis (matrix34 x) 0 (- 1)) = Inr [4, 3]"
  "map_sum id shape (moveaxis (matrix34 x) 1 (- 1)) = Inr [3, 4]"
  "map_sum id (\<lambda>a. item a [j, i]) (moveaxis (matrix34 x) 0 (- 1)) = Inr (x [i, j])"
  "map_sum id (\<lambda>a. item a [i, j]) (moveaxis (matrix34 x) 1 (- 1)) = Inr (x [i, j])"
  by (simp_all add: moveaxis_def normalize_axis_def ndim_def move_def matrix34_def)

lemma notebook_means:
  "map (row_mean (arange12 :: nat list \<Rightarrow> 'a::field_char_0)) [0, 1, 2] = [3 / 2, 11 / 2, 19 / 2]"
  "map (col_mean (arange12 :: nat list \<Rightarrow> 'a::field_char_0)) [0, 1, 2, 3] = [4, 5, 6, 7]"
  by (simp_all add: row_mean_def col_mean_def arange12_def)

text \<open>
  Claim C6.  Dimension sizes are resolved by walking the core dimension names in argument
  order.  (1) After a walk that succeeds, every name has the size it had before the walk or,
  if it had none, the size paired with its first occurrence.  (2) An occurrence of a name whose
  paired size differs from the size fixed before it makes the walk fail with
  \<open>InconsistentDimension\<close>, which reports the name, the new size and the fixed size.  (3) A
  call without \<^verbatim>\<open>axis\<close>, with the declared number of arguments, all of sufficient rank,
  fails with the error of the walk over all arguments' names and trailing sizes, and (4) where
  the resolver succeeds its sizes are the walk's.  (5) A function wrapped with
  \<^verbatim>\<open>'(n),(n)->()'\<close> and called on inputs whose last sizes are 3 and 4 raises
  \<open>InconsistentDimension\<close> for \<^verbatim>\<open>n\<close>, with 4 against 3.
\<close>

theorem first_occurrence_fixes_dimension_size:
  "(update_loop ds ps = Inr ds' \<longrightarrow>
      ds' d = (case ds d of Some v \<Rightarrow> Some v | None \<Rightarrow> map_of ps d))
   \<and> (update_loop ds pre = Inr dsp \<and> dsp d = Some v \<and> s \<noteq> v \<longrightarrow>
        update_loop ds (pre @ (d, s) # post) = Inl (InconsistentDimension d s v))
   \<and> (length args = length icd \<and> ranks_ok args icd
        \<and> update_loop Map.empty (core_pairs args icd) = Inl e \<longrightarrow>
        wrapper icd ocd func None args = Inl e)
   \<and> (ranks_ok args icd \<and> parse_input_dimensions args icd = Inr (bs, dsr) \<longrightarrow>
        update_loop Map.empty (core_pairs args icd) = Inr dsr)
   \<and> (shape a = p @ [3] \<and> shape b = q @ [4] \<longrightarrow>
        call_vectorized uw ''(n),(n)->()'' func None [a, b] = Inl (InconsistentDimension ''n'' 4 3))"
proof (intro conjI impI)
  assume "update_loop ds ps = Inr ds'"
  then show "ds' d = (case ds d of Some v \<Rightarrow> Some v | None \<Rightarrow> map_of ps d)"
    by (rule update_loop_first)
next
  assume "update_loop ds pre = Inr dsp \<and> dsp d = Some v \<and> s \<noteq> v"
  then show "update_loop ds (pre @ (d, s) # post) = Inl (InconsistentDimension d s v)"
    by (simp add: update_loop_conflict)
next
  assume h: "length args = length icd \<and> ranks_ok args icd
        \<and> update_loop Map.empty (core_pairs args icd) = Inl e"
  then have "parse_input_dimensions args icd = Inl e"
    by (simp add: parse_input_dimensions_walk)
  with h show "wrapper icd ocd func None args = Inl e"
    by (simp add: wrapper_resolver_error)
next
  assume "ranks_ok args icd \<and> parse_input_dimensions args icd = Inr (bs, dsr)"
  then show "update_loop Map.empty (core_pairs args icd) = Inr dsr"
    by (auto simp: parse_input_dimensions_walk split: sum.splits)
next
  assume h: "shape a = p @ [3] \<and> shape b = q @ [4]"
  then have "parse_input_dimensions [a, b] [[''n''], [''n'']] = Inl (InconsistentDimension ''n'' 4 3)"
    by (simp add: parse_input_dimensions_def update_dim_sizes_def ndim_def)
  then have "wrapper [[''n''], [''n'']] [[]] func None [a, b] = Inl (InconsistentDimension ''n'' 4 3)"
    by (simp add: wrapper_resolver_error)
  then show "call_vectorized uw ''(n),(n)->()'' func None [a, b] = Inl (InconsistentDimension ''n'' 4 3)"
    by (simp add: call_vectorized_def vectorize_def parse_nn)
qed

theorem first_occurrence_fixes_dimension_size_witness:
  "update_loop Map.empty [(''n'', 3), (''n'', 3)] = Inr [''n'' \<mapsto> 3]
   \<and> [''n'' \<mapsto> 3] ''n'' = Some (3::nat)
   \<and> update_loop Map.empty ([(''n'', 3)] @ (''n'', 4) # []) = Inl (InconsistentDimension ''n'' 4 3)
   \<and> ranks_ok [vec 3, vec 4] [[''n''], [''n'']]
   \<and> update_loop Map.empty (core_pairs [vec 3, vec 4] [[''n''], [''n'']]) = Inl (InconsistentDimension ''n'' 4 3)
   \<and> wrapper [[''n''], [''n'']] [[]] (\<lambda>xs. Inl CoreError) None [vec 3, vec 4] = Inl (InconsistentDimension ''n'' 4 3)
   \<and> parse_input_dimensions [vec 3, vec 3] [[''n''], [''n'']] = Inr ([], [''n'' \<mapsto> 3])
   \<and> update_loop Map.empty (core_pairs [vec 3, vec 3] [[''n''], [''n'']]) = Inr [''n'' \<mapsto> 3]
   \<and> call_vectorized (\<lambda>c. False) ''(n),(n)->()'' (\<lambda>xs. Inl CoreError) None [vec 3, vec 4]
        = Inl (InconsistentDimension ''n'' 4 3)"
proof -
  have pid: "parse_input_dimensions [vec 3, vec 3] [[''n''], [''n'']] = Inr ([], [''n'' \<mapsto> 3])"
    by (simp add: parse_input_dimensions_def update_dim_sizes_def ndim_def vec_def
        np_broadcast_shape_def max_rank_def)
  have rk: "ranks_ok [vec 3, vec 4] [[''n''], [''n'']]" "ranks_ok [vec 3, vec 3] [[''n''], [''n'']]"
    by (simp_all add: ranks_ok_def ndim_def vec_def)
  have cp: "update_loop Map.empty (core_pairs [vec 3, vec 4] [[''n''], [''n'']]) = Inl (InconsistentDimension ''n'' 4 3)"
    by (simp add: core_pairs_def core_shape_of_def ndim_def vec_def)
  have sh: "shape (vec 3) = [] @ [3] \<and> shape (vec 4) = [] @ [4]"
    by (simp add: vec_def)
  show ?thesis
    using pid rk cp sh
      first_occurrence_fixes_dimension_size
        [where ds = Map.empty and ps = "[(''n'', 3), (''n'', 3)]" and ds' = "[''n'' \<mapsto> 3]"
           and d = "''n''" and pre = "[(''n'', 3)]" and dsp = "[''n'' \<mapsto> 3]" and v = 3 and s = 4
           and post = "[]" and args = "[vec 3, vec 4]" and icd = "[[''n''], [''n'']]"
           and e = "InconsistentDimension ''n'' 4 3" and ocd = "[[]]" and func = "\<lambda>xs. Inl CoreError"
           and a = "vec 3" and b = "vec 4" and p = "[]" and q = "[]" and uw = "\<lambda>c. False"]
      first_occurrence_fixes_dimension_size
        [where ds = Map.empty and ps = "[]" and pre = "[]" and args = "[vec 3, vec 3]"
           and icd = "[[''n''], [''n'']]" and bs = "[]" and dsr = "[''n'' \<mapsto> 3]"
           and a = "vec 3" and b = "vec 4" and p = "[]" and q = "[]" and uw = "\<lambda>c. False"]
    by simp
qed

text \<open>
  Claim C7.  The check of one argument with \<open>k\<close> declared core dimensions fails with
  \<open>InsufficientRank\<close> exactly when the argument's rank is below \<open>k\<close>, and then reports the
  rank and the core dimensions; with no core dimension declared it returns at once, whatever
  the rank.  The resolver fails with \<open>InsufficientRank\<close> exactly when some argument has a rank
  below its \<open>k\<close> while all arguments before it passed, and a call without \<^verbatim>\<open>axis\<close> with the
  declared number of arguments then fails with that error.
\<close>

theorem insufficient_rank_iff_rank_below_core_count:
  "((\<exists>n c. update_dim_sizes ds arg cd = Inl (InsufficientRank n c)) \<longleftrightarrow> ndim arg < length cd)
   \<and> (ndim arg < length cd \<longrightarrow> update_dim_sizes ds arg cd = Inl (InsufficientRank (ndim arg) cd))
   \<and> (cd = [] \<longrightarrow> update_dim_sizes ds arg cd = Inr ds)
   \<and> (parse_input_dimensions args icd = Inl (InsufficientRank n c) \<longleftrightarrow>
        (\<exists>i. i < length args \<and> i < length icd \<and> n = ndim (args ! i) \<and> c = icd ! i
             \<and> ndim (args ! i) < length (icd ! i)
             \<and> (\<exists>r. pid_loop Map.empty [] (zip (take i args) (take i icd)) = Inr r)))
   \<and> (length args = length icd \<and> parse_input_dimensions args icd = Inl (InsufficientRank n c) \<longrightarrow>
        wrapper icd ocd func None args = Inl (InsufficientRank n c))"
proof (intro conjI impI)
  show "(\<exists>n c. update_dim_sizes ds arg cd = Inl (InsufficientRank n c)) \<longleftrightarrow> ndim arg < length cd"
    by (rule update_dim_sizes_insufficient)
next
  assume "ndim arg < length cd"
  then show "update_dim_sizes ds arg cd = Inl (InsufficientRank (ndim arg) cd)"
    by (rule update_dim_sizes_low_rank)
next
  assume "cd = []"
  then show "update_dim_sizes ds arg cd = Inr ds"
    by (simp add: update_dim_sizes_def)
next
  show "parse_input_dimensions args icd = Inl (InsufficientRank n c) \<longleftrightarrow>
        (\<exists>i. i < length args \<and> i < length icd \<and> n = ndim (args ! i) \<and> c = icd ! i
             \<and> ndim (args ! i) < length (icd ! i)
             \<and> (\<exists>r. pid_loop Map.empty [] (zip (take i args) (take i icd)) = Inr r))"
    unfolding parse_input_dimensions_insufficient by (rule pid_loop_insufficient)
next
  assume "length args = length icd \<and> parse_input_dimensions args icd = Inl (InsufficientRank n c)"
  then show "wrapper icd ocd func None args = Inl (InsufficientRank n c)"
    by (simp add: wrapper_resolver_error)
qed

theorem insufficient_rank_iff_rank_below_core_count_witness:
  "ndim (vec 3) < length [''m'', ''n'']
   \<and> update_dim_sizes Map.empty (vec 3) [''m'', ''n''] = Inl (InsufficientRank 1 [''m'', ''n''])
   \<and> update_dim_sizes Map.empty (vec 3) [] = Inr Map.empty
   \<and> parse_input_dimensions [vec 3] [[''m'', ''n'']] = Inl (InsufficientRank 1 [''m'', ''n''])
   \<and> wrapper [[''m'', ''n'']] [[]] (\<lambda>xs. Inl CoreError) None [vec 3] = Inl (InsufficientRank 1 [''m'', ''n''])"
proof -
  have rk: "ndim (vec 3) = 1" by (simp add: ndim_def vec_def)
  have pid: "parse_input_dimensions [vec 3] [[''m'', ''n'']] = Inl (InsufficientRank 1 [''m'', ''n''])"
    by (simp add: parse_input_dimensions_def update_dim_sizes_def rk)
  show ?thesis
    using rk pid
      insufficient_rank_iff_rank_below_core_count
        [where ds = Map.empty and arg = "vec 3" and cd = "[''m'', ''n'']" and args = "[vec 3]"
           and icd = "[[''m'', ''n'']]" and n = 1 and c = "[''m'', ''n'']" and ocd = "[[]]"
           and func = "\<lambda>xs. Inl CoreError"]
      insufficient_rank_iff_rank_below_core_count
        [where ds = Map.empty and arg = "vec 3" and cd = "[]" and args = "[vec 3]"
           and icd = "[[''m'', ''n'']]" and n = 1 and c = "[''m'', ''n'']"]
    by simp
qed

text \<open>
  Claim C1 (amended).  A call with an explicit \<^verbatim>\<open>axis\<close> runs the axis check first: when the
  check fails, the call fails with the check's error, \<open>AxisNotSupported\<close>, before any
  reordering.  The check accepts every signature (with at least one group) whose groups together
  hold at most one distinct dimension name, none or one, and in which no group lists a name
  twice.  The counterexample shows the claim as stated failing: \<^verbatim>\<open>'()->()'\<close> has no dimension
  name and is accepted, and \<^verbatim>\<open>'(n),(m)->(n)'\<close> has two and is accepted too.
\<close>

theorem axis_check_accepts_at_most_one_name:
  "(icd @ ocd \<noteq> [] \<and> card (all_core_dims icd ocd) \<le> 1 \<and> (\<forall>g \<in> set (icd @ ocd). distinct g) \<longrightarrow>
      verify_axis_is_supported icd ocd = Inr ())
   \<and> (verify_axis_is_supported icd ocd = Inl e \<longrightarrow> wrapper icd ocd func (Some ax) args = Inl e)"
proof (intro conjI impI)
  assume h: "icd @ ocd \<noteq> [] \<and> card (all_core_dims icd ocd) \<le> 1 \<and> (\<forall>g \<in> set (icd @ ocd). distinct g)"
  let ?g = "last (icd @ ocd)"
  from h have "icd @ ocd \<noteq> []" by blast
  then have mem: "?g \<in> set (icd @ ocd)" by (rule last_in_set)
  then have sub: "set ?g \<subseteq> all_core_dims icd ocd" unfolding all_core_dims_eq by blast
  have fin: "finite (all_core_dims icd ocd)" unfolding all_core_dims_eq by simp
  from h mem have "distinct ?g" by blast
  then have "length ?g = card (set ?g)" by (simp add: distinct_card)
  also have "\<dots> \<le> card (all_core_dims icd ocd)" using sub fin by (rule card_mono [rotated])
  finally have "length ?g \<le> 1" using h by simp
  with h show "verify_axis_is_supported icd ocd = Inr ()"
    by (simp add: verify_axis_is_supported_last)
next
  assume "verify_axis_is_supported icd ocd = Inl e"
  then show "wrapper icd ocd func (Some ax) args = Inl e" by (rule wrapper_axis_check_first)
qed

theorem axis_check_counterexample:
  "card (all_core_dims [[]] [[]]) \<noteq> 1
   \<and> parse_gufunc_signature ascii_only ''()->()'' = Inr [[[]], [[]]]
   \<and> verify_axis_is_supported [[]] [[]] = Inr ()
   \<and> call_vectorized ascii_only ''()->()'' first_arg (Some 0) [scalar0] = Inr (Arr scalar0)
   \<and> card (all_core_dims [[''n''], [''m'']] [[''n'']]) \<noteq> 1
   \<and> parse_gufunc_signature ascii_only ''(n),(m)->(n)'' = Inr [[[''n''], [''m'']], [[''n'']]]
   \<and> verify_axis_is_supported [[''n''], [''m'']] [[''n'']] = Inr ()"
proof -
  have sh: "shape scalar0 = []" by (simp add: scalar0_def)
  have b: "broadcast_with_core_dims [scalar0] [[]] [[]] = Inr [scalar0]"
    by (simp add: broadcast_with_core_dims_def parse_input_dimensions_def update_dim_sizes_def
        np_broadcast_shape_def max_rank_def ndim_def scalar0_def broadcast_to_def)
  have w: "wrapper [[]] [[]] first_arg (Some 0) [scalar0] = Inr (Arr scalar0)"
    by (simp add: wrapper_def verify_axis_is_supported_last b num_batch_dims_def first_arg_def
        reorder_outputs_def sh)
  have c: "card {''n'', ''m'', ''n''} = 2" by (simp add: card_insert_if)
  show ?thesis
    by (simp add: all_core_dims_eq verify_axis_is_supported_last parse_unit parse_nmn
        call_vectorized_def vectorize_def w c)
qed

theorem axis_check_accepts_at_most_one_name_witness:
  "[[''n'']] @ [[], [''n'']] \<noteq> [] \<and> card (all_core_dims [[''n'']] [[], [''n'']]) \<le> 1
   \<and> distinct [''n''] \<and> distinct ([] :: string list)
   \<and> verify_axis_is_supported [[''n'']] [[], [''n'']] = Inr ()
   \<and> verify_axis_is_supported [[''n'']] [[''n'', ''m'']] = Inl AxisNotSupported
   \<and> wrapper [[''n'']] [[''n'', ''m'']] first_arg (Some 0) [vec 3] = Inl AxisNotSupported"
proof -
  have v: "verify_axis_is_supported [[''n'']] [[''n'', ''m'']] = Inl AxisNotSupported"
    by (simp add: verify_axis_is_supported_last)
  show ?thesis
    using v
      axis_check_accepts_at_most_one_name [where icd = "[[''n'']]" and ocd = "[[], [''n'']]"
        and func = first_arg and ax = 0 and args = "[vec 3]" and e = AxisNotSupported]
      axis_check_accepts_at_most_one_name [where icd = "[[''n'']]" and ocd = "[[''n'', ''m'']]"
        and func = first_arg and ax = 0 and args = "[vec 3]" and e = AxisNotSupported]
    by (simp add: all_core_dims_eq)
qed

text \<open>
  Claim C5.  For arguments that meet the rank and consistency preconditions (every rank is
  sufficient and the walk over names and sizes succeeds), the resolver returns the result of
  combining the arguments' prefix shapes pairwise, aligned on the right, where a pair of
  entries must be equal or one of them 1 or absent and the result takes the other entry; it
  fails with \<open>BroadcastError\<close> exactly when the preconditions hold and the prefixes have no
  such common shape.  An argument of rank exactly \<open>k\<close> has the empty prefix, and the empty
  prefix changes a shape no more than a prefix of ones does.  The text of the error message is
  the array library's and is not modelled.
\<close>

theorem resolver_broadcast_shape:
  "(ranks_ok args icd \<and> update_loop Map.empty (core_pairs args icd) = Inr ds \<longrightarrow>
      parse_input_dimensions args icd =
        (case spec_broadcast (prefixes args icd) of
           Some b \<Rightarrow> Inr (b, ds)
         | None \<Rightarrow> Inl BroadcastError))
   \<and> (parse_input_dimensions args icd = Inl BroadcastError \<longleftrightarrow>
        ranks_ok args icd \<and> (\<exists>ds'. update_loop Map.empty (core_pairs args icd) = Inr ds')
        \<and> spec_broadcast (prefixes args icd) = None)
   \<and> (ndim arg = length cd \<longrightarrow> prefix_of arg cd = [])
   \<and> broadcast_pair b [] = Some b
   \<and> (n \<le> length b \<longrightarrow> broadcast_pair b (replicate n 1) = Some b)"
proof (intro conjI impI)
  assume "ranks_ok args icd \<and> update_loop Map.empty (core_pairs args icd) = Inr ds"
  then show "parse_input_dimensions args icd =
        (case spec_broadcast (prefixes args icd) of
           Some b \<Rightarrow> Inr (b, ds)
         | None \<Rightarrow> Inl BroadcastError)"
    by (simp add: parse_input_dimensions_walk np_broadcast_shape_spec split: option.splits)
next
  show "parse_input_dimensions args icd = Inl BroadcastError \<longleftrightarrow>
        ranks_ok args icd \<and> (\<exists>ds'. update_loop Map.empty (core_pairs args icd) = Inr ds')
        \<and> spec_broadcast (prefixes args icd) = None"
  proof
    assume h: "parse_input_dimensions args icd = Inl BroadcastError"
    have "\<exists>r. pid_loop Map.empty [] (zip args icd) = Inr r"
    proof (cases "pid_loop Map.empty [] (zip args icd)")
      case (Inl e)
      with h have "e = BroadcastError" by (simp add: parse_input_dimensions_def)
      with pid_loop_error_kind [OF Inl] show ?thesis by simp
    qed blast
    then obtain r where r: "pid_loop Map.empty [] (zip args icd) = Inr r" by blast
    then have rk: "ranks_ok args icd" by (rule pid_loop_ranks)
    with r have "\<exists>ds'. update_loop Map.empty (core_pairs args icd) = Inr ds'"
      by (auto simp: pid_loop_walk split: sum.splits)
    moreover from this h rk have "spec_broadcast (prefixes args icd) = None"
      by (auto simp: parse_input_dimensions_walk np_broadcast_shape_spec split: option.splits)
    ultimately show "ranks_ok args icd \<and> (\<exists>ds'. update_loop Map.empty (core_pairs args icd) = Inr ds')
        \<and> spec_broadcast (prefixes args icd) = None"
      using rk by blast
  next
    assume "ranks_ok args icd \<and> (\<exists>ds'. update_loop Map.empty (core_pairs args icd) = Inr ds')
        \<and> spec_broadcast (prefixes args icd) = None"
    then show "parse_input_dimensions args icd = Inl BroadcastError"
      by (auto simp: parse_input_dimensions_walk np_broadcast_shape_spec)
  qed
next
  assume "ndim arg = length cd"
  then show "prefix_of arg cd = []" by (simp add: prefix_of_def)
next
  show "broadcast_pair b [] = Some b" by (simp add: broadcast_pair_def)
next
  assume "n \<le> length b"
  then show "broadcast_pair b (replicate n 1) = Some b"
    by (simp add: broadcast_pair_def bpair_rev_ones)
qed

theorem resolver_broadcast_shape_witness:
  "ranks_ok [zeros [5, 1, 3], zeros [2, 3], zeros [3]] [[''n''], [''n''], [''n'']]
   \<and> update_loop Map.empty (core_pairs [zeros [5, 1, 3], zeros [2, 3], zeros [3]] [[''n''], [''n''], [''n'']])
        = Inr [''n'' \<mapsto> 3]
   \<and> prefixes [zeros [5, 1, 3], zeros [2, 3], zeros [3]] [[''n''], [''n''], [''n'']] = [[5, 1], [2], []]
   \<and> parse_input_dimensions [zeros [5, 1, 3], zeros [2, 3], zeros [3]] [[''n''], [''n''], [''n'']]
        = Inr ([5, 2], [''n'' \<mapsto> 3])
   \<and> spec_broadcast (prefixes [zeros [2, 3], zeros [4, 3]] [[''n''], [''n'']]) = None
   \<and> parse_input_dimensions [zeros [2, 3], zeros [4, 3]] [[''n''], [''n'']] = Inl BroadcastError
   \<and> ndim (zeros [3]) = length [''n''] \<and> prefix_of (zeros [3]) [''n''] = []
   \<and> broadcast_pair [5, 2] [] = Some [5, 2]
   \<and> (2::nat) \<le> length [5, 2::nat] \<and> broadcast_pair [5, 2] (replicate 2 1) = Some [5, 2]"
proof -
  let ?args = "[zeros [5, 1, 3], zeros [2, 3], zeros [3]]"
  let ?icd = "[[''n''], [''n''], [''n'']]"
  have rk: "ranks_ok ?args ?icd" "ranks_ok [zeros [2, 3], zeros [4, 3]] [[''n''], [''n'']]"
    by (simp_all add: ranks_ok_def ndim_def zeros_def)
  have w: "update_loop Map.empty (core_pairs ?args ?icd) = Inr [''n'' \<mapsto> 3]"
    "update_loop Map.empty (core_pairs [zeros [2, 3], zeros [4, 3]] [[''n''], [''n'']]) = Inr [''n'' \<mapsto> 3]"
    by (simp_all add: core_shape_of_def ndim_def zeros_def)
  have p: "prefixes ?args ?icd = [[5, 1], [2], []]"
    "prefixes [zeros [2, 3], zeros [4, 3]] [[''n''], [''n'']] = [[2], [4]]"
    by (simp_all add: prefix_of_def ndim_def zeros_def)
  have s: "spec_broadcast [[5, 1], [2], []] = Some [5, 2]" "spec_broadcast [[2], [4]] = None"
    by (simp_all add: spec_broadcast_def broadcast_pair_def)
  have n: "ndim (zeros [3]) = length [''n'']" by (simp add: ndim_def zeros_def)
  show ?thesis
    using rk w p s n
      resolver_broadcast_shape [where args = ?args and icd = ?icd and ds = "[''n'' \<mapsto> 3]"
        and arg = "zeros [3]" and cd = "[''n'']" and b = "[5, 2]" and n = 2]
      resolver_broadcast_shape [where args = "[zeros [2, 3], zeros [4, 3]]" and icd = "[[''n''], [''n'']]"
        and ds = "[''n'' \<mapsto> 3]" and arg = "zeros [3]" and cd = "[''n'']" and b = "[5, 2]" and n = 2]
    by simp
qed

text \<open>
  Claim C4 (amended).  \<^verbatim>\<open>vectorize(s)\<close> fails, at decoration time and with
  \<open>InvalidSignature\<close>, if and only if \<open>s\<close> is not a signature of the grammar optionally
  followed by one newline, where a name is one or more characters that \<^verbatim>\<open>\w\<close> matches (the
  letters, digits and underscore of ASCII, and the word characters outside ASCII).  For a
  signature built from groups of names, parsing returns these groups, one list of names for each
  group in order, for each side; the empty group \<^verbatim>\<open>()\<close> gives the empty list.  Every string
  of the grammar as the specification words it is accepted.  The counterexample shows the
  claim as stated failing: \<^verbatim>\<open>'()->()'\<close> followed by a newline is not in the grammar and is
  accepted.
\<close>

theorem invalid_signature_iff_no_match:
  "((\<exists>e. (vectorize uw s :: error + 'a wrapped) = Inl e) \<longleftrightarrow>
      \<not> (\<exists>ins outs nl. groups_ok uw ins \<and> groups_ok uw outs \<and> (nl = [] \<or> nl = [CHR 0x0A])
            \<and> s = render_signature ins outs @ nl))
   \<and> ((vectorize uw s :: error + 'a wrapped) = Inl e \<longrightarrow> e = InvalidSignature s)
   \<and> (groups_ok uw ins \<and> groups_ok uw outs \<and> (nl = [] \<or> nl = [CHR 0x0A]) \<longrightarrow>
        parse_gufunc_signature uw (render_signature ins outs @ nl) = Inr [ins, outs]
        \<and> (vectorize uw (render_signature ins outs @ nl) :: error + 'a wrapped) = Inr (wrapper ins outs))
   \<and> (in_grammar s \<longrightarrow> (\<exists>ins outs. (vectorize uw s :: error + 'a wrapped) = Inr (wrapper ins outs)))
   \<and> render_group [] = ''()''"
proof (intro conjI impI)
  show "(\<exists>e. vectorize uw s = Inl e) \<longleftrightarrow>
      \<not> (\<exists>ins outs nl. groups_ok uw ins \<and> groups_ok uw outs \<and> (nl = [] \<or> nl = [CHR 0x0A])
            \<and> s = render_signature ins outs @ nl)"
    by (rule vectorize_fails_iff)
next
  assume "vectorize uw s = Inl e"
  then show "e = InvalidSignature s" by (rule vectorize_error)
next
  assume h: "groups_ok uw ins \<and> groups_ok uw outs \<and> (nl = [] \<or> nl = [CHR 0x0A])"
  then show "parse_gufunc_signature uw (render_signature ins outs @ nl) = Inr [ins, outs]"
    by (simp add: parse_rendered)
  from h show "vectorize uw (render_signature ins outs @ nl) = Inr (wrapper ins outs)"
    by (simp add: vectorize_rendered)
next
  assume "in_grammar s"
  then obtain ins outs where io: "groups_ok uw ins" "groups_ok uw outs" "s = render_signature ins outs"
    using in_grammar_groups_ok by blast
  then have "vectorize uw s = Inr (wrapper ins outs)"
    using vectorize_rendered [of uw ins outs "[]"] by simp
  then show "\<exists>ins outs. vectorize uw s = Inr (wrapper ins outs)" by blast
next
  show "render_group [] = ''()''" by (simp add: render_group_def)
qed

theorem invalid_signature_counterexample:
  "\<not> in_grammar (''()->()'' @ [CHR 0x0A])
   \<and> parse_gufunc_signature ascii_only (''()->()'' @ [CHR 0x0A]) = Inr [[[]], [[]]]
   \<and> (vectorize ascii_only (''()->()'' @ [CHR 0x0A]) :: error + nat wrapped) = Inr (wrapper [[]] [[]])"
proof -
  have g: "groups_ok ascii_only [[]]" by (simp add: groups_ok_def group_ok_def)
  have r: "render_signature [[]] [[]] = ''()->()''"
    by (simp add: render_signature_def render_groups_def render_group_def)
  have "\<not> in_grammar (''()->()'' @ [CHR 0x0A])"
    using in_grammar_no_newline [of "''()->()'' @ [CHR 0x0A]"] by auto
  moreover have "parse_gufunc_signature ascii_only (''()->()'' @ [CHR 0x0A]) = Inr [[[]], [[]]]"
    using parse_rendered [OF g g, of "[CHR 0x0A]"] by (simp add: r)
  moreover have "(vectorize ascii_only (''()->()'' @ [CHR 0x0A]) :: error + nat wrapped) = Inr (wrapper [[]] [[]])"
    using vectorize_rendered [OF g g, of "[CHR 0x0A]"] by (simp add: r)
  ultimately show ?thesis by blast
qed

theorem invalid_signature_iff_no_match_witness:
  "groups_ok ascii_only [[''m'', ''n''], [''n'', ''k'']] \<and> groups_ok ascii_only [[''m'', ''k''], []]
   \<and> render_signature [[''m'', ''n''], [''n'', ''k'']] [[''m'', ''k''], []] = ''(m,n),(n,k)->(m,k),()''
   \<and> parse_gufunc_signature ascii_only ''(m,n),(n,k)->(m,k),()''
        = Inr [[[''m'', ''n''], [''n'', ''k'']], [[''m'', ''k''], []]]
   \<and> (vectorize ascii_only ''(m,n),(n,k)->(m,k),()'' :: error + nat wrapped)
        = Inr (wrapper [[''m'', ''n''], [''n'', ''k'']] [[''m'', ''k''], []])
   \<and> in_grammar ''(m,n),(n,k)->(m,k),()''
   \<and> (vectorize ascii_only ''(n) ->()'' :: error + nat wrapped) = Inl (InvalidSignature ''(n) ->()'')"
proof -
  let ?ins = "[[''m'', ''n''], [''n'', ''k'']]" and ?outs = "[[''m'', ''k''], []]"
  have w: "word_char ascii_only CHR ''m''" "word_char ascii_only CHR ''n''" "word_char ascii_only CHR ''k''"
    by (simp_all add: word_char_def ascii_word_def)
  have g: "groups_ok ascii_only ?ins" "groups_ok ascii_only ?outs"
    by (simp_all add: groups_ok_def group_ok_def is_name_def w)
  have r: "render_signature ?ins ?outs = ''(m,n),(n,k)->(m,k),()''"
    by (simp add: render_signature_def render_groups_def render_group_def)
  have a: "ascii_word CHR ''m''" "ascii_word CHR ''n''" "ascii_word CHR ''k''"
    by (simp_all add: ascii_word_def)
  have "ins \<noteq> [] \<and> outs \<noteq> [] \<and> (\<forall>g \<in> set (ins @ outs). \<forall>n \<in> set g. grammar_name n)
        \<and> ''(m,n),(n,k)->(m,k),()'' = render_signature ins outs"
    if "ins = ?ins" "outs = ?outs" for ins outs
    using that r by (simp add: grammar_name_def a)
  then have ig: "in_grammar ''(m,n),(n,k)->(m,k),()''" unfolding in_grammar_def by blast
  have bad: "(vectorize ascii_only ''(n) ->()'' :: error + nat wrapped) = Inl (InvalidSignature ''(n) ->()'')"
    by (simp add: vectorize_def parse_gufunc_signature_def re_match_def grammar_defs ascii_only_def)
  show ?thesis
    using g r ig bad
      invalid_signature_iff_no_match [where 'a = nat and uw = ascii_only and ins = ?ins and outs = ?outs
        and nl = "[]" and s = "''(m,n),(n,k)->(m,k),()''"]
      invalid_signature_iff_no_match [where 'a = nat and uw = ascii_only and s = "''(n) ->()''"
        and e = "InvalidSignature ''(n) ->()''" and ins = ?ins and outs = ?outs and nl = "[]"]
    by simp
qed

text \<open>
  Claim C10.  A string with two or more occurrences of \<^verbatim>\<open>->\<close> never parses: neither
  \<^verbatim>\<open>-\<close> nor \<^verbatim>\<open>>\<close> is a word character, so a string that parses holds each of them once,
  and it is split into exactly two sides.
\<close>

theorem two_arrows_never_parse:
  "parse_gufunc_signature uw (a @ ''->'' @ b @ ''->'' @ c)
      = Inl (InvalidSignature (a @ ''->'' @ b @ ''->'' @ c))
   \<and> (parse_gufunc_signature uw s = Inr sides \<longrightarrow>
        length (split_arrow s) = 2 \<and> length sides = 2
        \<and> count_list s CHR ''-'' = 1 \<and> count_list s CHR ''>'' = 1)
   \<and> \<not> word_char uw CHR ''-'' \<and> \<not> word_char uw CHR ''>''"
proof -
  have one: "length (split_arrow s) = 2 \<and> length sides = 2
        \<and> count_list s CHR ''-'' = 1 \<and> count_list s CHR ''>'' = 1"
    if "parse_gufunc_signature uw s = Inr sides" for s sides
  proof -
    from that obtain ins outs nl where io: "groups_ok uw ins" "groups_ok uw outs" "nl = [] \<or> nl = [CHR 0x0A]"
      and s: "s = render_signature ins outs @ nl" and sides: "sides = [ins, outs]"
      unfolding parse_gufunc_signature_iff by blast
    have c: "count_list (render_groups gs) CHR ''-'' = 0 \<and> count_list (render_groups gs) CHR ''>'' = 0"
      if "groups_ok uw gs" for gs
      using set_render_groups [OF that] by (auto simp: count_list_0_iff)
    have n: "count_list nl CHR ''-'' = 0 \<and> count_list nl CHR ''>'' = 0" using io(3) by auto
    have "length (split_arrow s) = 2" by (simp add: s split_arrow_signature [OF io])
    moreover have "count_list s CHR ''-'' = 1 \<and> count_list s CHR ''>'' = 1"
      using c [OF io(1)] c [OF io(2)] n by (simp add: s render_signature_def)
    ultimately show ?thesis using sides by simp
  qed
  let ?s = "a @ ''->'' @ b @ ''->'' @ c"
  have "parse_gufunc_signature uw ?s = Inl (InvalidSignature ?s)"
  proof (cases "parse_gufunc_signature uw ?s")
    case (Inl e)
    then show ?thesis by (simp add: parse_gufunc_signature_error)
  next
    case (Inr sides)
    from one [OF this] have "count_list ?s CHR ''-'' = 1" by blast
    then show ?thesis by simp
  qed
  with one show ?thesis by simp
qed

theorem two_arrows_never_parse_witness:
  "parse_gufunc_signature ascii_only ''(n)->()'' = Inr [[[''n'']], [[]]]
   \<and> length (split_arrow ''(n)->()'') = 2 \<and> length [[[''n'']], [[]]] = (2::nat)
   \<and> count_list ''(n)->()'' CHR ''-'' = 1 \<and> count_list ''(n)->()'' CHR ''>'' = 1
   \<and> parse_gufunc_signature ascii_only (''(n)'' @ ''->'' @ ''()'' @ ''->'' @ ''()'')
        = Inl (InvalidSignature (''(n)'' @ ''->'' @ ''()'' @ ''->'' @ ''()''))"
proof -
  have p: "parse_gufunc_signature ascii_only ''(n)->()'' = Inr [[[''n'']], [[]]]"
    by (simp add: parse_gufunc_signature_def re_match_def grammar_defs findall.simps)
  show ?thesis
    using p two_arrows_never_parse [where uw = ascii_only and s = "''(n)->()''"
        and sides = "[[[''n'']], [[]]]" and a = "''(n)''" and b = "''()''" and c = "''()''"]
    by simp
qed

text \<open>
  Claim C3.  Every successful call without \<^verbatim>\<open>axis\<close> is an explicit loop over the broadcast
  prefix \<open>P\<close>: all broadcast arguments start with \<open>P\<close>, and for every index tuple inside
  \<open>P\<close> the core function applied to the arguments' parts at that index returns exactly the
  result's part at that index.  When the prefix is empty, the call is the core function called
  on the broadcast arguments.  (A function of the model has no side effects.)
\<close>

theorem batching_is_a_nested_loop:
  "(wrapper icd ocd func None args = Inr result \<longrightarrow>
      (\<exists>P ds bargs.
         parse_input_dimensions args icd = Inr (P, ds)
         \<and> broadcast_with_core_dims args icd ocd = Inr bargs
         \<and> (\<forall>b \<in> set bargs. take (length P) (shape b) = P)
         \<and> (\<forall>idx. in_range P idx \<longrightarrow> func (map (slice_at idx) bargs) = Inr (sub_at idx result))))
   \<and> (parse_input_dimensions args icd = Inr ([], ds) \<and> broadcast_with_core_dims args icd ocd = Inr bargs
        \<and> icd \<noteq> [] \<longrightarrow> wrapper icd ocd func None args = func bargs)"
proof (intro conjI impI)
  assume w: "wrapper icd ocd func None args = Inr result"
  then obtain bargs nb where b: "broadcast_with_core_dims args icd ocd = Inr bargs"
    and nb: "num_batch_dims bargs icd = Inr nb" and v: "(vmap ^^ nat nb) func bargs = Inr result"
    by (auto simp: wrapper_None_unfold split: sum.splits)
  from broadcast_with_core_dims_resolved [OF b] obtain P ds
    where p: "parse_input_dimensions args icd = Inr (P, ds)" by blast
  from nb have icd: "icd \<noteq> []" by (auto simp: num_batch_dims_def split: list.splits)
  from num_batch_dims_prefix [OF b p icd] nb
  have n: "nat nb = length P" and hd: "take (length P) (shape (hd bargs)) = P" by simp_all
  from broadcast_with_core_dims_shapes [OF b p]
  have l: "length bargs = length icd"
    and s: "\<forall>k < length icd. \<exists>vs. lookup_dims ds (icd ! k) = Inr vs \<and> shape (bargs ! k) = P @ vs"
    by simp_all
  have pre: "\<forall>b \<in> set bargs. take (length P) (shape b) = P"
  proof
    fix b assume "b \<in> set bargs"
    then obtain k where "k < length bargs" "b = bargs ! k" by (auto simp: in_set_conv_nth)
    with s l show "take (length P) (shape b) = P" by auto
  qed
  have loop: "func (map (slice_at idx) bargs) = Inr (sub_at idx result)" if "in_range P idx" for idx
  proof -
    have "length (take (length P) (shape (hd bargs))) \<le> length (shape (hd bargs))" by simp
    with hd have "length P \<le> length (shape (hd bargs))" by simp
    with v n hd that show ?thesis by (intro vmap_iter_index [where k = "length P"]) simp_all
  qed
  from p b pre loop
  show "\<exists>P ds bargs.
         parse_input_dimensions args icd = Inr (P, ds)
         \<and> broadcast_with_core_dims args icd ocd = Inr bargs
         \<and> (\<forall>b \<in> set bargs. take (length P) (shape b) = P)
         \<and> (\<forall>idx. in_range P idx \<longrightarrow> func (map (slice_at idx) bargs) = Inr (sub_at idx result))"
    by blast
next
  assume h: "parse_input_dimensions args icd = Inr ([], ds) \<and> broadcast_with_core_dims args icd ocd = Inr bargs
        \<and> icd \<noteq> []"
  then have "num_batch_dims bargs icd = Inr (int (length ([] :: nat list)))"
    by (intro num_batch_dims_prefix(1)) blast+
  with h show "wrapper icd ocd func None args = func bargs"
    by (simp add: wrapper_None_unfold)
qed

theorem batching_is_a_nested_loop_witness:
  "wrapper [[''n'']] [[''n'']] first_arg None [zeros [2, 3]] = Inr (Arr (zeros [2, 3]))
   \<and> parse_input_dimensions [zeros [2, 3]] [[''n'']] = Inr ([2], [''n'' \<mapsto> 3])
   \<and> broadcast_with_core_dims [zeros [2, 3]] [[''n'']] [[''n'']] = Inr [zeros [2, 3]]
   \<and> in_range [2] [1]
   \<and> first_arg (map (slice_at [1]) [zeros [2, 3]]) = Inr (sub_at [1] (Arr (zeros [2, 3])))
   \<and> parse_input_dimensions [zeros [3]] [[''n'']] = Inr ([], [''n'' \<mapsto> 3])
   \<and> broadcast_with_core_dims [zeros [3]] [[''n'']] [[''n'']] = Inr [zeros [3]]
   \<and> wrapper [[''n'']] [[''n'']] first_arg None [zeros [3]] = first_arg [zeros [3]]"
proof -
  have r: "in_range [2] [1]" by (simp add: in_range_def)
  note t = batching_is_a_nested_loop [where icd = "[[''n'']]" and ocd = "[[''n'']]" and func = first_arg
        and args = "[zeros [2, 3]]" and result = "Arr (zeros [2, 3])", THEN conjunct1, rule_format,
        OF wrapper_first_arg_zeros]
  then obtain P ds bargs where a: "parse_input_dimensions [zeros [2, 3]] [[''n'']] = Inr (P, ds)"
    and b: "broadcast_with_core_dims [zeros [2, 3]] [[''n'']] [[''n'']] = Inr bargs"
    and c: "\<forall>idx. in_range P idx \<longrightarrow>
              first_arg (map (slice_at idx) bargs) = Inr (sub_at idx (Arr (zeros [2, 3])))"
    by blast
  from a have "P = [2]" by (simp add: resolve_zeros_23)
  moreover from b have "bargs = [zeros [2, 3]]" by (simp add: broadcast_zeros_23)
  ultimately have "first_arg (map (slice_at [1]) [zeros [2, 3]]) = Inr (sub_at [1] (Arr (zeros [2, 3])))"
    using c r by blast
  moreover have "wrapper [[''n'']] [[''n'']] first_arg None [zeros [3]] = first_arg [zeros [3]]"
    using batching_is_a_nested_loop [where icd = "[[''n'']]" and ocd = "[[''n'']]" and func = first_arg
        and args = "[zeros [3]]" and ds = "[''n'' \<mapsto> 3]" and bargs = "[zeros [3]]"
        and result = "Arr (zeros [3])", THEN conjunct2, rule_format]
      resolve_zeros_3 broadcast_zeros_3
    by simp
  ultimately show ?thesis
    using wrapper_first_arg_zeros resolve_zeros_23 broadcast_zeros_23 r resolve_zeros_3 broadcast_zeros_3
    by simp
qed

text \<open>
  Claim C2 (amended).  Let the arguments be as many as the signature declares, of sufficient
  rank and with consistent core dimension sizes, and let their prefix shapes broadcast to
  \<open>P\<close> (the resolver returns \<open>P\<close>; \<open>P\<close> may be empty).  Let the core function, called on
  arrays of the arguments' core shapes, return one array when the signature declares one output
  group and a tuple otherwise, each array of the core shape \<open>map sz g\<close> of its group \<open>g\<close>.
  Then the call without \<^verbatim>\<open>axis\<close> succeeds; with one output group it returns one array of
  shape \<open>P @ map sz g\<close>, otherwise a tuple with one array for each group, the array of group
  \<open>g\<close> of shape \<open>P @ map sz g\<close>.  The counterexample shows the claim as stated failing:
  with \<^verbatim>\<open>'(n),(n)->()'\<close> and vectors of 3 and 4 elements the prefixes are empty and broadcast,
  and the call fails with \<open>InconsistentDimension\<close>.
\<close>

theorem rank_additivity:
  "length args = length icd \<and> icd \<noteq> [] \<and> parse_input_dimensions args icd = Inr (P, ds)
   \<and> contract func (core_shapes args icd) (length ocd \<noteq> 1) (map (map sz) ocd)
   \<longrightarrow> (\<exists>v. wrapper icd ocd func None args = Inr v
          \<and> form v = (length ocd \<noteq> 1, map (\<lambda>g. P @ map sz g) ocd)
          \<and> (length ocd = 1 \<longrightarrow> (\<exists>a. v = Arr a \<and> shape a = P @ map sz (hd ocd)))
          \<and> (length ocd \<noteq> 1 \<longrightarrow>
               (\<exists>as. v = Tup as \<and> length as = length ocd
                  \<and> map shape as = map (\<lambda>g. P @ map sz g) ocd)))"
proof
  assume h: "length args = length icd \<and> icd \<noteq> [] \<and> parse_input_dimensions args icd = Inr (P, ds)
   \<and> contract func (core_shapes args icd) (length ocd \<noteq> 1) (map (map sz) ocd)"
  let ?os = "map (\<lambda>g. P @ map sz g) ocd"
  have m: "map ((@) P) (map (map sz) ocd) = ?os" by simp
  from h wrapper_shapes [of args icd P ds func "length ocd \<noteq> 1" "map (map sz) ocd" ocd]
  obtain v where v: "wrapper icd ocd func None args = Inr v" and f: "form v = (length ocd \<noteq> 1, ?os)"
    unfolding m by blast
  have one: "\<exists>a. v = Arr a \<and> shape a = P @ map sz (hd ocd)" if l: "length ocd = 1"
  proof -
    from l obtain g where g: "ocd = [g]" by (cases ocd) auto
    from f l have "form v = (False, ?os)" by simp
    from form_Arr [OF this] g show ?thesis by auto
  qed
  have many: "\<exists>as. v = Tup as \<and> length as = length ocd \<and> map shape as = ?os" if l: "length ocd \<noteq> 1"
  proof -
    from f l have "form v = (True, ?os)" by simp
    from form_Tup [OF this] obtain as where as: "v = Tup as" "?os = map shape as" by blast
    from as(2) have "length as = length ocd" using map_eq_imp_length_eq by fastforce
    with as show ?thesis by auto
  qed
  from v f one many
  show "\<exists>v. wrapper icd ocd func None args = Inr v
          \<and> form v = (length ocd \<noteq> 1, ?os)
          \<and> (length ocd = 1 \<longrightarrow> (\<exists>a. v = Arr a \<and> shape a = P @ map sz (hd ocd)))
          \<and> (length ocd \<noteq> 1 \<longrightarrow>
               (\<exists>as. v = Tup as \<and> length as = length ocd \<and> map shape as = ?os))"
    by blast
qed

theorem rank_additivity_witness:
  "length [zeros [2, 3]] = length [[''n'']] \<and> [[''n'']] \<noteq> []
   \<and> parse_input_dimensions [zeros [2, 3]] [[''n'']] = Inr ([2], [''n'' \<mapsto> 3])
   \<and> contract first_arg (core_shapes [zeros [2, 3]] [[''n'']]) (length [[''n'']] \<noteq> 1)
        (map (map (\<lambda>d. 3)) [[''n'']])
   \<and> wrapper [[''n'']] [[''n'']] first_arg None [zeros [2, 3]] = Inr (Arr (zeros [2, 3]))
   \<and> shape (zeros [2, 3]) = [2] @ map (\<lambda>d. 3) (hd [[''n'']])
   \<and> contract pair_arg (core_shapes [zeros [2, 3]] [[''n'']]) (length [[''n''], [''n'']] \<noteq> 1)
        (map (map (\<lambda>d. 3)) [[''n''], [''n'']])
   \<and> wrapper [[''n'']] [[''n''], [''n'']] pair_arg None [zeros [2, 3]]
        = Inr (Tup [zeros [2, 3], zeros [2, 3]])
   \<and> map shape [zeros [2, 3], zeros [2, 3]] = map (\<lambda>g. [2] @ map (\<lambda>d. 3) g) [[''n''], [''n'']]"
proof -
  have c1: "contract first_arg (core_shapes [zeros [2, 3]] [[''n'']]) (length [[''n'']] \<noteq> 1)
        (map (map (\<lambda>d. 3)) [[''n'']])"
    using contract_first_arg by (simp add: core_shapes_zeros_23)
  have c2: "contract pair_arg (core_shapes [zeros [2, 3]] [[''n'']]) (length [[''n''], [''n'']] \<noteq> 1)
        (map (map (\<lambda>d. 3)) [[''n''], [''n'']])"
    using contract_pair_arg by (simp add: core_shapes_zeros_23)
  note t1 = rank_additivity [where args = "[zeros [2, 3]]" and icd = "[[''n'']]" and P = "[2]"
      and ds = "[''n'' \<mapsto> 3]" and func = first_arg and ocd = "[[''n'']]" and sz = "\<lambda>d. 3", rule_format]
  note t2 = rank_additivity [where args = "[zeros [2, 3]]" and icd = "[[''n'']]" and P = "[2]"
      and ds = "[''n'' \<mapsto> 3]" and func = pair_arg and ocd = "[[''n''], [''n'']]" and sz = "\<lambda>d. 3", rule_format]
  have p1: "length [zeros [2, 3]] = length [[''n'']] \<and> [[''n'']] \<noteq> []
      \<and> parse_input_dimensions [zeros [2, 3]] [[''n'']] = Inr ([2], [''n'' \<mapsto> 3])
      \<and> contract first_arg (core_shapes [zeros [2, 3]] [[''n'']]) (length [[''n'']] \<noteq> 1)
           (map (map (\<lambda>d. 3)) [[''n'']])"
    using c1 resolve_zeros_23 by simp
  have p2: "length [zeros [2, 3]] = length [[''n'']] \<and> [[''n'']] \<noteq> []
      \<and> parse_input_dimensions [zeros [2, 3]] [[''n'']] = Inr ([2], [''n'' \<mapsto> 3])
      \<and> contract pair_arg (core_shapes [zeros [2, 3]] [[''n'']]) (length [[''n''], [''n'']] \<noteq> 1)
           (map (map (\<lambda>d. 3)) [[''n''], [''n'']])"
    using c2 resolve_zeros_23 by simp
  have "\<exists>v. wrapper [[''n'']] [[''n'']] first_arg None [zeros [2, 3]] = Inr v"
    using t1 [OF p1] by (elim exE conjE) (rule exI)
  moreover have "\<exists>v. wrapper [[''n'']] [[''n''], [''n'']] pair_arg None [zeros [2, 3]] = Inr v"
    using t2 [OF p2] by (elim exE conjE) (rule exI)
  ultimately show ?thesis
    using c1 c2 resolve_zeros_23 wrapper_first_arg_zeros wrapper_pair_arg_zeros by simp
qed

theorem rank_additivity_counterexample:
  "prefixes [vec 3, vec 4] [[''n''], [''n'']] = [[], []]
   \<and> spec_broadcast [[], []] = Some []
   \<and> contract (zeros_out []) (core_shapes [vec 3, vec 4] [[''n''], [''n'']]) (length [[] :: string list] \<noteq> 1) [[]]
   \<and> call_vectorized ascii_only ''(n),(n)->()'' (zeros_out []) None [vec 3, vec 4]
        = Inl (InconsistentDimension ''n'' 4 3)"
proof -
  have "prefixes [vec 3, vec 4] [[''n''], [''n'']] = [[], []]"
    by (simp add: prefix_of_def ndim_def vec_def)
  moreover have "spec_broadcast [[], []] = Some []"
    by (simp add: spec_broadcast_def broadcast_pair_def)
  moreover have "contract (zeros_out []) (core_shapes [vec 3, vec 4] [[''n''], [''n'']])
      (length [[] :: string list] \<noteq> 1) [[]]"
    using zeros_out_contract [of "[]"] by simp
  moreover have "parse_input_dimensions [vec 3, vec 4] [[''n''], [''n'']] = Inl (InconsistentDimension ''n'' 4 3)"
    by (simp add: parse_input_dimensions_def update_dim_sizes_def ndim_def vec_def)
  then have "wrapper [[''n''], [''n'']] [[]] (zeros_out []) None [vec 3, vec 4] = Inl (InconsistentDimension ''n'' 4 3)"
    by (simp add: wrapper_resolver_error)
  then have "call_vectorized ascii_only ''(n),(n)->()'' (zeros_out []) None [vec 3, vec 4]
        = Inl (InconsistentDimension ''n'' 4 3)"
    by (simp add: call_vectorized_def vectorize_def parse_nn)
  ultimately show ?thesis by blast
qed

text \<open>
  Claim C9 (amended).  In a call without \<^verbatim>\<open>axis\<close> the output core dimensions are not read:
  the broadcast step and the whole call return the same for any two lists of output core
  dimensions, and the call returns what the batched core function returns on the broadcast
  arguments.  \<^verbatim>\<open>'()->(n)'\<close> is a valid signature, and the size of its output dimension is
  whatever the core function returns: with a core function returning \<open>k\<close> zeros, a call on
  \<open>m\<close> scalars returns an array of shape \<open>[m, k]\<close>, for every \<open>k\<close>.  The counterexample
  shows the claim as stated failing for a call with \<^verbatim>\<open>axis\<close>: the same call fails with
  \<open>AxisNotSupported\<close> for \<^verbatim>\<open>'()->(n,m)'\<close> and succeeds for \<^verbatim>\<open>'()->()'\<close>.
\<close>

theorem output_dimensions_unconstrained_without_axis:
  "broadcast_with_core_dims args icd ocd = broadcast_with_core_dims args icd ocd'
   \<and> wrapper icd ocd func None args = wrapper icd ocd' func None args
   \<and> wrapper icd ocd func None args =
       (case broadcast_with_core_dims args icd [] of
          Inl e \<Rightarrow> Inl e
        | Inr bargs \<Rightarrow>
            (case num_batch_dims bargs icd of
               Inl e \<Rightarrow> Inl e
             | Inr nb \<Rightarrow> (vmap ^^ nat nb) func bargs))
   \<and> parse_gufunc_signature uw ''()->(n)'' = Inr [[[]], [[''n'']]]
   \<and> call_vectorized uw ''()->(n)'' (zeros_out [k]) None [zeros [m]] = Inr (Arr (zeros [m, k]))"
proof (intro conjI)
  show "broadcast_with_core_dims args icd ocd = broadcast_with_core_dims args icd ocd'"
    by (rule broadcast_with_core_dims_ocd)
  show "wrapper icd ocd func None args = wrapper icd ocd' func None args"
    by (rule wrapper_None_ocd)
  show "wrapper icd ocd func None args =
       (case broadcast_with_core_dims args icd [] of
          Inl e \<Rightarrow> Inl e
        | Inr bargs \<Rightarrow>
            (case num_batch_dims bargs icd of
               Inl e \<Rightarrow> Inl e
             | Inr nb \<Rightarrow> (vmap ^^ nat nb) func bargs))"
    by (simp add: wrapper_None_unfold broadcast_with_core_dims_ocd [of args icd ocd "[]"])
  show "parse_gufunc_signature uw ''()->(n)'' = Inr [[[]], [[''n'']]]"
    by (rule parse_unit_n)
  show "call_vectorized uw ''()->(n)'' (zeros_out [k]) None [zeros [m]] = Inr (Arr (zeros [m, k]))"
    by (simp add: call_vectorized_def vectorize_def parse_unit_n wrapper_zeros_out)
qed

theorem output_dimensions_counterexample:
  "call_vectorized ascii_only ''()->(n,m)'' first_arg (Some 0) [scalar0] = Inl AxisNotSupported
   \<and> call_vectorized ascii_only ''()->()'' first_arg (Some 0) [scalar0] = Inr (Arr scalar0)"
proof -
  have sh: "shape scalar0 = []" by (simp add: scalar0_def)
  have b: "broadcast_with_core_dims [scalar0] [[]] [[]] = Inr [scalar0]"
    by (simp add: broadcast_with_core_dims_def parse_input_dimensions_def update_dim_sizes_def
        np_broadcast_shape_def max_rank_def ndim_def scalar0_def broadcast_to_def)
  have w: "wrapper [[]] [[]] first_arg (Some 0) [scalar0] = Inr (Arr scalar0)"
    by (simp add: wrapper_def verify_axis_is_supported_last b num_batch_dims_def first_arg_def
        reorder_outputs_def sh)
  have v: "wrapper [[]] [[''n'', ''m'']] first_arg (Some 0) [scalar0] = Inl AxisNotSupported"
    by (simp add: wrapper_axis_check_first verify_axis_is_supported_last)
  show ?thesis
    by (simp add: call_vectorized_def vectorize_def parse_unit parse_unit_nm w v)
qed

subsection \<open>Claim C8: \<^verbatim>\<open>center\<close> along an axis of a 3-by-4 matrix\<close>

text \<open>
  Claim C8.  Let \<^verbatim>\<open>center\<close> (bias = mean of its one-dimensional input, debiased = input
  minus bias) be wrapped with the signature \<^verbatim>\<open>'(n)->(),(n)'\<close> and called on a 3-by-4 matrix
  \<open>x\<close>.  With \<^verbatim>\<open>axis=1\<close> the call returns a pair: the first output has shape \<open>(3,)\<close> and
  holds the row means, the second has shape \<open>(3, 4)\<close> and holds every element minus the mean
  of its row.  With \<^verbatim>\<open>axis=0\<close> the first output has shape \<open>(4,)\<close> and holds the column
  means, the second has shape \<open>(3, 4)\<close> and holds every element minus the mean of its
  column.  The mechanism is the one the code writes: a call with an axis moves that axis of
  the input to the last position (for the matrix and axis 0 this is the transpose, of shape
  \<open>(4, 3)\<close>; for axis 1 nothing moves), makes the call without an axis, and then moves the
  last axis back to position \<open>axis\<close> on the outputs that declare a core dimension, here the
  second output only.  The elements are taken in a field and the arithmetic is exact, so
  rounding is outside the statement; the outputs are compared at all their indices.
\<close>

theorem center_along_axis:
  fixes x :: "nat list \<Rightarrow> 'a::field"
  shows
    "(\<exists>b d. call_vectorized uw ''(n)->(),(n)'' center (Some 1) [matrix34 x] = Inr (Tup [b, d])
        \<and> shape b = [3] \<and> map (item b) (all_indices [3]) = map (row_mean x) [0, 1, 2]
        \<and> shape d = [3, 4]
        \<and> map (item d) (all_indices [3, 4])
            = map (\<lambda>idx. x idx - row_mean x (idx ! 0)) (all_indices [3, 4]))
   \<and> (\<exists>b d. call_vectorized uw ''(n)->(),(n)'' center (Some 0) [matrix34 x] = Inr (Tup [b, d])
        \<and> shape b = [4] \<and> map (item b) (all_indices [4]) = map (col_mean x) [0, 1, 2, 3]
        \<and> shape d = [3, 4]
        \<and> map (item d) (all_indices [3, 4])
            = map (\<lambda>idx. x idx - col_mean x (idx ! 1)) (all_indices [3, 4]))
   \<and> call_vectorized uw ''(n)->(),(n)'' func (Some ax) [a] =
       (case moveaxis a ax (- 1) of
          Inl e \<Rightarrow> Inl e
        | Inr a' \<Rightarrow>
            (case call_vectorized uw ''(n)->(),(n)'' func None [a'] of
               Inl e \<Rightarrow> Inl e
             | Inr r \<Rightarrow> reorder_outputs r ax [[], [''n'']]))
   \<and> reorder_inputs [a] ax [[''n'']] =
       (case moveaxis a ax (- 1) of Inl e \<Rightarrow> Inl e | Inr a' \<Rightarrow> Inr [a'])
   \<and> reorder_outputs (Tup [b0, d0]) ax [[], [''n'']] =
       (case moveaxis d0 (- 1) ax of Inl e \<Rightarrow> Inl e | Inr d' \<Rightarrow> Inr (Tup [b0, d']))
   \<and> map_sum id shape (moveaxis (matrix34 x) 0 (- 1)) = Inr [4, 3]
   \<and> map_sum id (\<lambda>t. item t [j, i]) (moveaxis (matrix34 x) 0 (- 1)) = Inr (x [i, j])
   \<and> map_sum id shape (moveaxis (matrix34 x) 1 (- 1)) = Inr [3, 4]
   \<and> map_sum id (\<lambda>t. item t [i, j]) (moveaxis (matrix34 x) 1 (- 1)) = Inr (x [i, j])"
  unfolding call_center
proof (intro conjI)
  show "\<exists>b d. wrapper [[''n'']] [[], [''n'']] center (Some 1) [matrix34 x] = Inr (Tup [b, d])
        \<and> shape b = [3] \<and> map (item b) (all_indices [3]) = map (row_mean x) [0, 1, 2]
        \<and> shape d = [3, 4]
        \<and> map (item d) (all_indices [3, 4])
            = map (\<lambda>idx. x idx - row_mean x (idx ! 0)) (all_indices [3, 4])"
    by (rule center_rows)
  show "\<exists>b d. wrapper [[''n'']] [[], [''n'']] center (Some 0) [matrix34 x] = Inr (Tup [b, d])
        \<and> shape b = [4] \<and> map (item b) (all_indices [4]) = map (col_mean x) [0, 1, 2, 3]
        \<and> shape d = [3, 4]
        \<and> map (item d) (all_indices [3, 4])
            = map (\<lambda>idx. x idx - col_mean x (idx ! 1)) (all_indices [3, 4])"
    by (rule center_cols)
  show "wrapper [[''n'']] [[], [''n'']] func (Some ax) [a] =
       (case moveaxis a ax (- 1) of
          Inl e \<Rightarrow> Inl e
        | Inr a' \<Rightarrow>
            (case wrapper [[''n'']] [[], [''n'']] func None [a'] of
               Inl e \<Rightarrow> Inl e
             | Inr r \<Rightarrow> reorder_outputs r ax [[], [''n'']]))"
    by (rule wrapper_axis_unfold)
  show "reorder_inputs [a] ax [[''n'']] =
       (case moveaxis a ax (- 1) of Inl e \<Rightarrow> Inl e | Inr a' \<Rightarrow> Inr [a'])"
    by (rule reorder_inputs_center)
  show "reorder_outputs (Tup [b0, d0]) ax [[], [''n'']] =
       (case moveaxis d0 (- 1) ax of Inl e \<Rightarrow> Inl e | Inr d' \<Rightarrow> Inr (Tup [b0, d']))"
    by (rule reorder_outputs_center)
qed (rule moveaxis_matrix34)+

end
